theory Spec2Isabelle
  imports Complex_Main "HOL-Library.Word" "HOL-Library.Signed_Division"
begin

unbundle bit_operations_syntax

section \<open>Hash kernel (hash.go)\<close>

text \<open>
  Keys are byte slices. Go's \<open>uint64\<close> is \<open>64 word\<close>; on the 64-bit targets the
  library is built for, \<open>uint\<close> is 64 bits wide as well, so the conversions
  \<open>uint64(index)\<close> and \<open>uint(k.hash(i))\<close> are identities.
\<close>

type_synonym byte = "8 word"
type_synonym uint64 = "64 word"
type_synonym hashKernel = "64 word"

definition fnvOffset64 :: uint64 where
  "fnvOffset64 = 14695981039346656037"

definition fnvPrime64 :: uint64 where
  "fnvPrime64 = 1099511628211"

definition hash :: "hashKernel \<Rightarrow> uint64 \<Rightarrow> uint64" where
  "hash k index = (let v = k in (v AND 0xffffffff) + (drop_bit 32 v) * index)"

text \<open>The body of the \<open>range\<close> loop of \<open>multihash\<close>, started at the running value \<open>k\<close>.\<close>

fun multihash_loop :: "uint64 \<Rightarrow> byte list \<Rightarrow> uint64" where
  "multihash_loop k [] = k"
| "multihash_loop k (b # key) = multihash_loop ((k * fnvPrime64) XOR ucast b) key"

definition multihash :: "byte list \<Rightarrow> hashKernel" where
  "multihash key = multihash_loop fnvOffset64 key"

section \<open>Count-min sketch\<close>

text \<open>
  Go's runtime panics are values of the model: a function that can panic returns
  \<open>None\<close> there.  \<open>float64\<close> fields are idealised as reals.
\<close>

record fnvSketch =
  Epsilon :: real
  Delta :: real
  Width :: uint64
  Depth :: uint64
  Matrix :: "uint64 list"

definition DefaultEpsilon :: real where
  "DefaultEpsilon = 0.999"

definition DefaultDelta :: real where
  "DefaultDelta = 0.99"

definition MaxUint64 :: uint64 where
  "MaxUint64 = 0xffffffffffffffff"

text \<open>
  \<open>NewSketch\<close> sizes the matrix with \<open>math.Ceil\<close>, \<open>math.E\<close> and \<open>math.Log\<close> on
  \<open>float64\<close> and converts the results to \<open>uint\<close>.  That floating-point computation is
  not embedded: the two conversions \<open>uint(math.Ceil(math.E / (1 - epsilon)))\<close> and
  \<open>uint(math.Ceil(math.Log(1 / (1 - delta))))\<close> are the parameters \<open>widthOf\<close> and
  \<open>depthOf\<close>.  The fresh struct has a nil matrix, so the sizing branch always runs.
\<close>

definition NewSketch :: "(real \<Rightarrow> uint64) \<Rightarrow> (real \<Rightarrow> uint64) \<Rightarrow> real \<Rightarrow> real \<Rightarrow> fnvSketch" where
  "NewSketch widthOf depthOf epsilon delta =
     (let e = (if epsilon = 0 then DefaultEpsilon else epsilon);
          d = (if delta = 0 then DefaultDelta else delta);
          w = widthOf e;
          dp = depthOf d
      in \<lparr>Epsilon = e, Delta = d, Width = w, Depth = dp,
          Matrix = replicate (unat (w * dp)) 0\<rparr>)"

text \<open>
  The loop of \<open>fnvSketch.Count\<close> from row \<open>i\<close> on, with the running minimum \<open>mn\<close>.
  \<open>% r.Width\<close> panics when the width is 0 and \<open>r.Matrix[k]\<close> panics out of range.
  The signed \<open>delta\<close> is converted with \<open>uint64(delta)\<close>, which is \<open>word_of_int\<close>.
\<close>

function Count_loop :: "fnvSketch \<Rightarrow> hashKernel \<Rightarrow> int \<Rightarrow> uint64 \<Rightarrow> uint64 \<Rightarrow> (fnvSketch \<times> uint64) option" where
  "Count_loop r k delta mn i =
     (if i < Depth r then
        (if Width r = 0 then None
         else let j = hash k i mod Width r;
                  c = i * Width r + j
              in if unat c < length (Matrix r) then
                   let r' = r\<lparr>Matrix := (Matrix r)[unat c := Matrix r ! unat c + word_of_int delta]\<rparr>;
                       v = Matrix r' ! unat c
                   in Count_loop r' k delta (if v < mn then v else mn) (i + 1)
                 else None)
      else Some (r, mn))"
  by pat_completeness auto
termination
proof (relation "measure (\<lambda>(r, k, delta, mn, i). unat (Depth r) - unat i)")
  show "wf (measure (\<lambda>(r, k, delta, mn, i). unat (Depth r) - unat i))" by simp
next
  fix r :: fnvSketch and k :: hashKernel and delta :: int and mn i :: uint64
    and x xa xb xc
  assume lt: "i < Depth r" and "xb = r\<lparr>Matrix := (Matrix r)[unat xa := Matrix r ! unat xa + word_of_int delta]\<rparr>"
  then have d: "Depth xb = Depth r" by simp
  from lt have "unat i < unat (Depth r)" by (simp add: word_less_nat_alt)
  moreover have "unat (Depth r) < 2 ^ 64" using unsigned_less [of "Depth r"] by simp
  ultimately have "unat i + 1 < 2 ^ 64" by linarith
  then have "unat (i + 1) = unat i + 1" by (simp add: unat_word_ariths)
  with lt d show "((xb, k, delta, if xc < mn then xc else mn, i + 1), r, k, delta, mn, i)
        \<in> measure (\<lambda>(r, k, delta, mn, i). unat (Depth r) - unat i)"
    by (simp add: word_less_nat_alt)
qed

definition fnvSketch_Count :: "fnvSketch \<Rightarrow> byte list \<Rightarrow> int \<Rightarrow> (fnvSketch \<times> uint64) option" where
  "fnvSketch_Count r key delta = (let mn = MaxUint64; k = multihash key in Count_loop r k delta mn 0)"

function Query_loop :: "fnvSketch \<Rightarrow> hashKernel \<Rightarrow> uint64 \<Rightarrow> uint64 \<Rightarrow> uint64 option" where
  "Query_loop r k mn i =
     (if i < Depth r then
        (if Width r = 0 then None
         else let j = hash k i mod Width r
              in if unat (i * Width r + j) < length (Matrix r) then
                   let v = Matrix r ! unat (i * Width r + j)
                   in Query_loop r k (if v < mn then v else mn) (i + 1)
                 else None)
      else Some mn)"
  by pat_completeness auto
termination
proof (relation "measure (\<lambda>(r, k, mn, i). unat (Depth r) - unat i)")
  show "wf (measure (\<lambda>(r, k, mn, i). unat (Depth r) - unat i))" by simp
next
  fix r :: fnvSketch and k :: hashKernel and mn i :: uint64 and x xa
  assume lt: "i < Depth r"
  then have "unat i < unat (Depth r)" by (simp add: word_less_nat_alt)
  moreover have "unat (Depth r) < 2 ^ 64" using unsigned_less [of "Depth r"] by simp
  ultimately have "unat i + 1 < 2 ^ 64" by linarith
  then have "unat (i + 1) = unat i + 1" by (simp add: unat_word_ariths)
  with lt show "((r, k, if xa < mn then xa else mn, i + 1), r, k, mn, i)
        \<in> measure (\<lambda>(r, k, mn, i). unat (Depth r) - unat i)"
    by (simp add: word_less_nat_alt)
qed

definition fnvSketch_Query :: "fnvSketch \<Rightarrow> byte list \<Rightarrow> uint64 option" where
  "fnvSketch_Query r key = (let k = multihash key; mn = MaxUint64 in Query_loop r k mn 0)"


section \<open>Rolling counter\<close>

text \<open>
  A \<open>time.Time\<close> is an instant in nanoseconds and a \<open>time.Duration\<close> a number of
  nanoseconds, both as unbounded integers: \<open>Sub\<close> is subtraction, \<open>Add\<close> addition and
  \<open>After\<close> is \<open>>\<close>.  The saturation of \<open>Sub\<close> and the overflow of \<open>int64\<close> are
  outside the model.  The injected \<open>clock\<close> is the argument \<open>now\<close> of the public
  operations, and \<open>float64\<close> arithmetic is exact real arithmetic.
\<close>

definition Second :: int where
  "Second = 1000000000"

definition Minute :: int where
  "Minute = 60 * Second"

record sketchWithTime =
  CountSketch :: "fnvSketch option"
  Time :: int

definition sketchWithTime_Count :: "sketchWithTime \<Rightarrow> byte list \<Rightarrow> int \<Rightarrow> (sketchWithTime \<times> uint64) option" where
  "sketchWithTime_Count b key delta =
     (case CountSketch b of
        None \<Rightarrow> Some (b, 0)
      | Some s \<Rightarrow>
          (case fnvSketch_Count s key delta of
             None \<Rightarrow> None
           | Some (s', v) \<Rightarrow> Some (b\<lparr>CountSketch := Some s'\<rparr>, v)))"

definition sketchWithTime_Query :: "sketchWithTime \<Rightarrow> byte list \<Rightarrow> uint64 option" where
  "sketchWithTime_Query b key =
     (case CountSketch b of
        None \<Rightarrow> Some 0
      | Some s \<Rightarrow> fnvSketch_Query s key)"

record rollingCounter =
  rlEpsilon :: real
  rlDelta :: real
  Interval :: int
  NumIntervals :: int
  buckets :: "sketchWithTime list"

definition RollingCounter :: "real \<Rightarrow> real \<Rightarrow> int \<Rightarrow> int \<Rightarrow> rollingCounter" where
  "RollingCounter epsilon delta interval num =
     \<lparr>rlEpsilon = epsilon, rlDelta = delta, Interval = interval, NumIntervals = num,
      buckets = []\<rparr>"

text \<open>
  One pass through the body of the loop of \<open>rollingCounter.query\<close> at bucket \<open>i\<close> with
  the cursor \<open>now\<close>: the bucket is skipped (\<open>continue\<close>), ends the walk (\<open>break\<close>) or
  adds a count and a duration to the totals.
\<close>

datatype walkStep = Skip | Break | Add real int

definition query_body :: "rollingCounter \<Rightarrow> byte list \<Rightarrow> int \<Rightarrow> uint64 \<Rightarrow> nat \<Rightarrow> int \<Rightarrow> walkStep option" where
  "query_body rl key intervalStart latest i now =
     (let d = now - Time (buckets rl ! i)
      in if d \<le> 0 then Some Skip
         else
           (case (if i = length (buckets rl) - 1 \<and> latest \<noteq> 0 then Some latest
                  else sketchWithTime_Query (buckets rl ! i) key) of
              None \<Rightarrow> None
            | Some c \<Rightarrow>
                (let n = real (unat c)
                 in if intervalStart > Time (buckets rl ! i) then
                      (let end = Time (buckets rl ! i) + Interval rl;
                           end = (if end > now then now else end);
                           d2 = end - intervalStart
                       in if d - d2 > Interval rl then Some Break
                          else Some (Add (n * real_of_int d2 / real_of_int d) (now - intervalStart)))
                    else Some (Add n d))))"

text \<open>
  The loop itself.  The first argument after \<open>latest\<close> is \<open>i + 1\<close>, so that the loop
  ends at 0 where the source tests \<open>i >= 0\<close>.
\<close>

fun query_loop :: "rollingCounter \<Rightarrow> byte list \<Rightarrow> int \<Rightarrow> uint64 \<Rightarrow> nat \<Rightarrow> int \<Rightarrow> int \<Rightarrow> real \<Rightarrow> int \<Rightarrow> (real \<times> int) option" where
  "query_loop rl key intervalStart latest 0 now interval tc td = Some (tc, td)"
| "query_loop rl key intervalStart latest (Suc i) now interval tc td =
     (if interval > 0 then
        (case query_body rl key intervalStart latest i now of
           None \<Rightarrow> None
         | Some Skip \<Rightarrow> query_loop rl key intervalStart latest i now interval tc td
         | Some Break \<Rightarrow> Some (tc, td)
         | Some (Add n d) \<Rightarrow>
             query_loop rl key intervalStart latest i (Time (buckets rl ! i))
               (interval - (now - Time (buckets rl ! i))) (tc + n) (td + d))
      else Some (tc, td))"

definition rollingCounter_query :: "rollingCounter \<Rightarrow> byte list \<Rightarrow> int \<Rightarrow> int \<Rightarrow> uint64 \<Rightarrow> (real \<times> int) option" where
  "rollingCounter_query rl key now interval latest =
     (let intervalStart = now - interval
      in case query_loop rl key intervalStart latest (length (buckets rl)) now interval 0 0 of
           None \<Rightarrow> None
         | Some (tc, td) \<Rightarrow> if td < Second then Some (0, 0) else Some (tc, td))"

definition getWithDefault :: "real \<Rightarrow> real \<Rightarrow> real" where
  "getWithDefault v def = (if v = 0 then def else v)"

text \<open>
  \<open>rollingCounter.count\<close>.  \<open>copy(rl.buckets, rl.buckets[1:])\<close> moves every bucket but
  the first one place down and leaves the last in place; the assignment then overwrites
  the last.  The count on the newest bucket writes through the bucket's sketch pointer.
\<close>

definition rollingCounter_count :: "(real \<Rightarrow> uint64) \<Rightarrow> (real \<Rightarrow> uint64) \<Rightarrow> rollingCounter \<Rightarrow> byte list \<Rightarrow> int \<Rightarrow> int \<Rightarrow> int \<Rightarrow> (rollingCounter \<times> real \<times> int) option" where
  "rollingCounter_count widthOf depthOf rl key delta now interval =
     (let epsilon = getWithDefault (rlEpsilon rl) DefaultEpsilon;
          d = getWithDefault (rlDelta rl) DefaultDelta;
          bs = buckets rl;
          bs =
            (if length bs = 0 then
               [\<lparr>CountSketch = Some (NewSketch widthOf depthOf epsilon d), Time = now\<rparr>]
             else if now - Time (bs ! (length bs - 1)) \<ge> Interval rl then
               (let newSketch = \<lparr>CountSketch = Some (NewSketch widthOf depthOf epsilon d), Time = now\<rparr>
                in if int (length bs) \<ge> NumIntervals rl then
                     (drop 1 bs @ drop (length bs - 1) bs)[length bs - 1 := newSketch]
                   else bs @ [newSketch])
             else bs)
      in case sketchWithTime_Count (bs ! (length bs - 1)) key delta of
           None \<Rightarrow> None
         | Some (b, latest) \<Rightarrow>
             (let rl' = rl\<lparr>buckets := bs[length bs - 1 := b]\<rparr>
              in case rollingCounter_query rl' key now interval latest of
                   None \<Rightarrow> None
                 | Some r \<Rightarrow> Some (rl', r)))"

definition rate :: "real \<times> int \<Rightarrow> real" where
  "rate r = (case r of (tc, d) \<Rightarrow> if d = 0 then 0 else (tc / real_of_int d) * real_of_int Second)"

definition rollingCounter_Query :: "rollingCounter \<Rightarrow> byte list \<Rightarrow> int \<Rightarrow> int \<Rightarrow> real option" where
  "rollingCounter_Query rl key now interval =
     (if length (buckets rl) = 0 then Some 0
      else case rollingCounter_query rl key now interval 0 of
             None \<Rightarrow> None
           | Some r \<Rightarrow> Some (rate r))"

definition rollingCounter_Count :: "(real \<Rightarrow> uint64) \<Rightarrow> (real \<Rightarrow> uint64) \<Rightarrow> rollingCounter \<Rightarrow> byte list \<Rightarrow> int \<Rightarrow> int \<Rightarrow> int \<Rightarrow> (rollingCounter \<times> real) option" where
  "rollingCounter_Count widthOf depthOf rl key delta now interval =
     (case rollingCounter_count widthOf depthOf rl key delta now interval of
        None \<Rightarrow> None
      | Some (rl', r) \<Rightarrow> Some (rl', rate r))"

text \<open>
  A client's calls on one rolling counter, each with the instant its clock shows.
  \<open>Query\<close> assigns to no field of the counter, so it leaves the state as it is; a
  panic of either operation ends the run.
\<close>

datatype rateOp = CountOp "byte list" int int int | QueryOp "byte list" int int

fun apply_op :: "(real \<Rightarrow> uint64) \<Rightarrow> (real \<Rightarrow> uint64) \<Rightarrow> rollingCounter \<Rightarrow> rateOp \<Rightarrow> rollingCounter option" where
  "apply_op widthOf depthOf rl (CountOp key delta now interval) =
     (case rollingCounter_Count widthOf depthOf rl key delta now interval of
        None \<Rightarrow> None
      | Some (rl', r) \<Rightarrow> Some rl')"
| "apply_op widthOf depthOf rl (QueryOp key now interval) =
     (case rollingCounter_Query rl key now interval of
        None \<Rightarrow> None
      | Some r \<Rightarrow> Some rl)"

fun apply_ops :: "(real \<Rightarrow> uint64) \<Rightarrow> (real \<Rightarrow> uint64) \<Rightarrow> rollingCounter \<Rightarrow> rateOp list \<Rightarrow> rollingCounter option" where
  "apply_ops widthOf depthOf rl [] = Some rl"
| "apply_ops widthOf depthOf rl (x # xs) =
     (case apply_op widthOf depthOf rl x of
        None \<Rightarrow> None
      | Some rl' \<Rightarrow> apply_ops widthOf depthOf rl' xs)"

text \<open>
  The scenario "Going back in time" of \<open>rolling_test.go\<close>: ten writes of
  1, 2, ..., 10, the clock advanced by a minute before each, then the rate walk with the
  cursor four minutes before the last write.
\<close>

fun goingBack_writes :: "(real \<Rightarrow> uint64) \<Rightarrow> (real \<Rightarrow> uint64) \<Rightarrow> byte list \<Rightarrow> nat \<Rightarrow> int \<Rightarrow> rollingCounter \<Rightarrow> int \<Rightarrow> (rollingCounter \<times> int) option" where
  "goingBack_writes widthOf depthOf key 0 i counter now = Some (counter, now)"
| "goingBack_writes widthOf depthOf key (Suc m) i counter now =
     (let now = now + Minute
      in case rollingCounter_Count widthOf depthOf counter key (i + 1) now 0 of
           None \<Rightarrow> None
         | Some (counter', r) \<Rightarrow> goingBack_writes widthOf depthOf key m (i + 1) counter' now)"

definition goingBackInTime :: "(real \<Rightarrow> uint64) \<Rightarrow> (real \<Rightarrow> uint64) \<Rightarrow> byte list \<Rightarrow> int \<Rightarrow> (real \<times> int) option" where
  "goingBackInTime widthOf depthOf key now =
     (case goingBack_writes widthOf depthOf key 10 0 (RollingCounter 0 0 (60 * Second) 10) now of
        None \<Rightarrow> None
      | Some (counter, now') \<Rightarrow>
          rollingCounter_query counter key (now' - 4 * Minute) (90 * Second) 0)"

section \<open>Rollup counter\<close>

record rollupCounter =
  Levels :: "rollingCounter list"

text \<open>
  \<open>make\<close> panics on the length \<open>-1\<close> of an empty \<open>durations\<close>, and \<open>to / from\<close> panics
  when \<open>from\<close> is 0.  Go's integer division and remainder truncate towards zero.
\<close>

fun RollupCounter_loop :: "real \<Rightarrow> real \<Rightarrow> int list \<Rightarrow> rollingCounter list option" where
  "RollupCounter_loop epsilon delta (from # to # durations) =
     (if from = 0 then None
      else case RollupCounter_loop epsilon delta (to # durations) of
             None \<Rightarrow> None
           | Some levels \<Rightarrow>
               Some (\<lparr>rlEpsilon = epsilon, rlDelta = delta, Interval = from,
                      NumIntervals = (to sdiv from) + (if to smod from > 0 then 1 else 0),
                      buckets = []\<rparr> # levels))"
| "RollupCounter_loop epsilon delta durations = Some []"

definition RollupCounter :: "real \<Rightarrow> real \<Rightarrow> int list \<Rightarrow> rollupCounter option" where
  "RollupCounter epsilon delta durations =
     (if int (length durations) - 1 < 0 then None
      else case RollupCounter_loop epsilon delta durations of
             None \<Rightarrow> None
           | Some levels \<Rightarrow> Some \<lparr>Levels = levels\<rparr>)"

fun rollupCounter_Query_loop :: "rollingCounter list \<Rightarrow> byte list \<Rightarrow> int \<Rightarrow> int \<Rightarrow> real \<Rightarrow> int \<Rightarrow> (real \<times> int) option" where
  "rollupCounter_Query_loop [] key now interval tc td = Some (tc, td)"
| "rollupCounter_Query_loop (c # levels) key now interval tc td =
     (if interval \<le> 0 then Some (tc, td)
      else case rollingCounter_query c key now interval 0 of
             None \<Rightarrow> None
           | Some (n, d) \<Rightarrow>
               rollupCounter_Query_loop levels key (now - d) (interval - d) (tc + n) (td + d))"

definition rollupCounter_Query :: "rollupCounter \<Rightarrow> byte list \<Rightarrow> int \<Rightarrow> int \<Rightarrow> real option" where
  "rollupCounter_Query rc key now interval =
     (case rollupCounter_Query_loop (Levels rc) key now interval 0 0 of
        None \<Rightarrow> None
      | Some r \<Rightarrow> Some (rate r))"

fun rollupCounter_Count_loop :: "(real \<Rightarrow> uint64) \<Rightarrow> (real \<Rightarrow> uint64) \<Rightarrow> rollingCounter list \<Rightarrow> byte list \<Rightarrow> int \<Rightarrow> int \<Rightarrow> int \<Rightarrow> real \<Rightarrow> int \<Rightarrow> (rollingCounter list \<times> real \<times> int) option" where
  "rollupCounter_Count_loop widthOf depthOf [] key delta now interval tc td = Some ([], tc, td)"
| "rollupCounter_Count_loop widthOf depthOf (c # levels) key delta now interval tc td =
     (let interval = (if interval < 0 then 0 else interval)
      in case rollingCounter_count widthOf depthOf c key delta now interval of
           None \<Rightarrow> None
         | Some (c', n, d) \<Rightarrow>
             (case rollupCounter_Count_loop widthOf depthOf levels key delta now (interval - d)
                     (tc + n) (td + d) of
                None \<Rightarrow> None
              | Some (levels', r) \<Rightarrow> Some (c' # levels', r)))"

definition rollupCounter_Count :: "(real \<Rightarrow> uint64) \<Rightarrow> (real \<Rightarrow> uint64) \<Rightarrow> rollupCounter \<Rightarrow> byte list \<Rightarrow> int \<Rightarrow> int \<Rightarrow> int \<Rightarrow> (rollupCounter \<times> real) option" where
  "rollupCounter_Count widthOf depthOf rc key delta now interval =
     (case rollupCounter_Count_loop widthOf depthOf (Levels rc) key delta now interval 0 0 of
        None \<Rightarrow> None
      | Some (levels', r) \<Rightarrow> Some (rc\<lparr>Levels := levels'\<rparr>, rate r))"

text \<open>
  The walk of the rollup query as the specification words it: level \<open>i\<close> is asked at
  the cursor moved back by the durations the finer levels reported, for what is left of
  the interval; the reports \<open>(n\<^sub>i, d\<^sub>i)\<close> are collected until nothing is left.
\<close>

fun level_reports :: "rollingCounter list \<Rightarrow> byte list \<Rightarrow> int \<Rightarrow> int \<Rightarrow> (real \<times> int) list option" where
  "level_reports [] key now interval = Some []"
| "level_reports (c # levels) key now interval =
     (if interval \<le> 0 then Some []
      else case rollingCounter_query c key now interval 0 of
             None \<Rightarrow> None
           | Some (n, d) \<Rightarrow>
               (case level_reports levels key (now - d) (interval - d) of
                  None \<Rightarrow> None
                | Some rs \<Rightarrow> Some ((n, d) # rs)))"

definition spec_rollup_Query :: "rollupCounter \<Rightarrow> byte list \<Rightarrow> int \<Rightarrow> int \<Rightarrow> real option" where
  "spec_rollup_Query rc key now interval =
     (case level_reports (Levels rc) key now interval of
        None \<Rightarrow> None
      | Some rs \<Rightarrow>
          (let totalCount = sum_list (map fst rs);
               totalDuration = sum_list (map snd rs)
           in if totalDuration = 0 then Some 0
              else Some ((totalCount / real_of_int totalDuration) * real_of_int Second)))"

section \<open>Serialization\<close>

text \<open>
  \<open>encoding/gob\<close> is a library outside the repository.  It is a parameter of the
  model: for each type the counter encodes, what \<open>Encoder.Encode\<close> appends to the
  buffer and what \<open>Decoder.Decode\<close> reads off the front of the stream (the value and the
  rest of the stream), either of which can fail.  The wire symbols are a type parameter.
\<close>

datatype gobError = GobError

record 'w gob =
  encodeFloat :: "real \<Rightarrow> gobError + 'w list"
  decodeFloat :: "'w list \<Rightarrow> gobError + (real \<times> 'w list)"
  encodeInt :: "int \<Rightarrow> gobError + 'w list"
  decodeInt :: "'w list \<Rightarrow> gobError + (int \<times> 'w list)"
  encodeBuckets :: "sketchWithTime list \<Rightarrow> gobError + 'w list"
  decodeBuckets :: "'w list \<Rightarrow> gobError + (sketchWithTime list \<times> 'w list)"

definition GobEncode :: "'w gob \<Rightarrow> rollingCounter \<Rightarrow> gobError + 'w list" where
  "GobEncode g rl =
     (case encodeFloat g (rlEpsilon rl) of Inl e \<Rightarrow> Inl e | Inr b1 \<Rightarrow>
      case encodeFloat g (rlDelta rl) of Inl e \<Rightarrow> Inl e | Inr b2 \<Rightarrow>
      case encodeInt g (Interval rl) of Inl e \<Rightarrow> Inl e | Inr b3 \<Rightarrow>
      case encodeInt g (NumIntervals rl) of Inl e \<Rightarrow> Inl e | Inr b4 \<Rightarrow>
      case encodeBuckets g (buckets rl) of Inl e \<Rightarrow> Inl e | Inr b5 \<Rightarrow>
        Inr (b1 @ b2 @ b3 @ b4 @ b5))"

text \<open>
  \<open>GobDecode\<close> writes each field as soon as it is decoded, so a failure leaves the
  fields decoded before it changed; the result is the counter and the error, if any.
\<close>

definition GobDecode :: "'w gob \<Rightarrow> rollingCounter \<Rightarrow> 'w list \<Rightarrow> rollingCounter \<times> gobError option" where
  "GobDecode g rl data =
     (case decodeFloat g data of Inl e \<Rightarrow> (rl, Some e) | Inr (v1, data) \<Rightarrow>
      let rl = rl\<lparr>rlEpsilon := v1\<rparr> in
      case decodeFloat g data of Inl e \<Rightarrow> (rl, Some e) | Inr (v2, data) \<Rightarrow>
      let rl = rl\<lparr>rlDelta := v2\<rparr> in
      case decodeInt g data of Inl e \<Rightarrow> (rl, Some e) | Inr (v3, data) \<Rightarrow>
      let rl = rl\<lparr>Interval := v3\<rparr> in
      case decodeInt g data of Inl e \<Rightarrow> (rl, Some e) | Inr (v4, data) \<Rightarrow>
      let rl = rl\<lparr>NumIntervals := v4\<rparr> in
      case decodeBuckets g data of Inl e \<Rightarrow> (rl, Some e) | Inr (v5, data) \<Rightarrow>
      (rl\<lparr>buckets := v5\<rparr>, None))"

text \<open>
  A stream of typed values, one symbol for each encoded value: the simplest codec that
  reads back what it wrote.
\<close>

datatype gobValue = GobFloat real | GobInt int | GobBuckets "sketchWithTime list"

fun valueDecodeFloat :: "gobValue list \<Rightarrow> gobError + (real \<times> gobValue list)" where
  "valueDecodeFloat (GobFloat v # data) = Inr (v, data)"
| "valueDecodeFloat data = Inl GobError"

fun valueDecodeInt :: "gobValue list \<Rightarrow> gobError + (int \<times> gobValue list)" where
  "valueDecodeInt (GobInt v # data) = Inr (v, data)"
| "valueDecodeInt data = Inl GobError"

fun valueDecodeBuckets :: "gobValue list \<Rightarrow> gobError + (sketchWithTime list \<times> gobValue list)" where
  "valueDecodeBuckets (GobBuckets v # data) = Inr (v, data)"
| "valueDecodeBuckets data = Inl GobError"

definition valueGob :: "gobValue gob" where
  "valueGob =
     \<lparr>encodeFloat = (\<lambda>v. Inr [GobFloat v]), decodeFloat = valueDecodeFloat,
      encodeInt = (\<lambda>v. Inr [GobInt v]), decodeInt = valueDecodeInt,
      encodeBuckets = (\<lambda>v. Inr [GobBuckets v]), decodeBuckets = valueDecodeBuckets\<rparr>"

section \<open>Well-formed states\<close>

text \<open>
  The states \<open>NewSketch\<close> builds and \<open>Count\<close> keeps: a positive width and a matrix of
  \<open>Width * Depth\<close> cells, the product computed without wrap-around.  \<open>cell\<close> is the
  index of the cell of row \<open>i\<close> that \<open>Count\<close> and \<open>Query\<close> visit for the kernel
  \<open>k\<close>.
\<close>


definition sketch_ok :: "fnvSketch \<Rightarrow> bool" where
  "sketch_ok r = (Width r \<noteq> 0 \<and> length (Matrix r) = unat (Width r) * unat (Depth r)
                  \<and> unat (Width r) * unat (Depth r) < 2 ^ 64)"

definition cell :: "fnvSketch \<Rightarrow> hashKernel \<Rightarrow> uint64 \<Rightarrow> nat" where
  "cell r k i = unat (i * Width r + hash k i mod Width r)"


text \<open>A bucket is well formed if its sketch is nil or well formed.\<close>


definition bucket_ok :: "sketchWithTime \<Rightarrow> bool" where
  "bucket_ok b = (case CountSketch b of None \<Rightarrow> True | Some s \<Rightarrow> sketch_ok s)"

definition buckets_ok :: "rollingCounter \<Rightarrow> bool" where
  "buckets_ok rl = list_all bucket_ok (buckets rl)"


text \<open>
  A counter with two buckets a minute apart whose one-cell sketches hold the counts 4
  and 5, as the tests build counters by assigning \<open>counter.buckets\<close>.
\<close>

definition twoBuckets :: rollingCounter where
  "twoBuckets =
     \<lparr>rlEpsilon = 0, rlDelta = 0, Interval = 60000000000, NumIntervals = 10,
      buckets = [\<lparr>CountSketch = Some \<lparr>Epsilon = 999 / 1000, Delta = 99 / 100, Width = 1, Depth = 1,
                                       Matrix = [4]\<rparr>, Time = 0\<rparr>,
                 \<lparr>CountSketch = Some \<lparr>Epsilon = 999 / 1000, Delta = 99 / 100, Width = 1, Depth = 1,
                                       Matrix = [5]\<rparr>, Time = 60000000000\<rparr>]\<rparr>"

section \<open>The sketch loops\<close>

declare Count_loop.simps [simp del] Query_loop.simps [simp del]

lemma word_succ_unat: "(i::uint64) < d \<Longrightarrow> unat (i + 1) = unat i + 1"
proof -
  assume "i < d"
  then have "unat i < unat d" by (simp add: word_less_nat_alt)
  moreover have "unat d < 2 ^ 64" using unsigned_less [of d] by simp
  ultimately have "unat i + 1 < 2 ^ 64" by linarith
  then show ?thesis by (simp add: unat_word_ariths)
qed

lemma cell_unat:
  assumes ok: "sketch_ok r" and lt: "i < Depth r"
  shows "cell r k i = unat i * unat (Width r) + unat (hash k i) mod unat (Width r)"
    and "cell r k i < length (Matrix r)"
proof -
  let ?w = "unat (Width r)"
  from ok have w0: "0 < ?w" by (simp add: sketch_ok_def unat_gt_0)
  from lt have il: "unat i < unat (Depth r)" by (simp add: word_less_nat_alt)
  have jl: "unat (hash k i) mod ?w < ?w" using w0 by simp
  have "unat i * ?w + unat (hash k i) mod ?w < (unat i + 1) * ?w" using jl by simp
  also have "\<dots> \<le> unat (Depth r) * ?w" using il by (intro mult_le_mono1) simp
  finally have b: "unat i * ?w + unat (hash k i) mod ?w < ?w * unat (Depth r)"
    by (simp add: mult.commute)
  with ok have b64: "unat i * ?w + unat (hash k i) mod ?w < 2 ^ 64"
    by (simp add: sketch_ok_def)
  have "unat (i * Width r + hash k i mod Width r)
        = (unat i * ?w + unat (hash k i) mod ?w) mod 2 ^ 64"
    by (simp add: unat_word_ariths unat_mod mod_simps)
  with b64 show "cell r k i = unat i * ?w + unat (hash k i) mod ?w"
    by (simp add: cell_def)
  with b ok show "cell r k i < length (Matrix r)" by (simp add: sketch_ok_def)
qed

lemma Count_loop_unfold:
  assumes "sketch_ok r" "i < Depth r"
  shows "Count_loop r k delta mn i =
         Count_loop (r\<lparr>Matrix := (Matrix r)[cell r k i := Matrix r ! cell r k i + word_of_int delta]\<rparr>)
            k delta (if Matrix r ! cell r k i + word_of_int delta < mn
                     then Matrix r ! cell r k i + word_of_int delta else mn) (i + 1)"
proof -
  from assms have "Width r \<noteq> 0" by (simp add: sketch_ok_def)
  moreover note cell_unat(2) [OF assms, of k]
  ultimately show ?thesis
    by (subst Count_loop.simps) (simp add: assms Let_def cell_def)
qed

lemma Query_loop_unfold:
  assumes "sketch_ok r" "i < Depth r"
  shows "Query_loop r k mn i =
         Query_loop r k (if Matrix r ! cell r k i < mn then Matrix r ! cell r k i else mn) (i + 1)"
proof -
  from assms have "Width r \<noteq> 0" by (simp add: sketch_ok_def)
  moreover note cell_unat(2) [OF assms, of k]
  ultimately show ?thesis
    by (subst Query_loop.simps) (simp add: assms Let_def cell_def)
qed

lemma sketch_ok_update [simp]:
  "sketch_ok (r\<lparr>Matrix := (Matrix r)[c := v]\<rparr>) = sketch_ok r"
  by (simp add: sketch_ok_def)

lemma cell_update [simp]:
  "cell (r\<lparr>Matrix := m\<rparr>) k i = cell r k i"
  by (simp add: cell_def)

text \<open>What the loop leaves behind: sizes, and every cell of a row before \<open>i\<close>.\<close>

lemma Count_loop_frame:
  "sketch_ok r \<Longrightarrow> Count_loop r k delta mn i = Some (r', v) \<Longrightarrow>
     Width r' = Width r \<and> Depth r' = Depth r \<and> length (Matrix r') = length (Matrix r)
     \<and> Epsilon r' = Epsilon r \<and> Delta r' = Delta r
     \<and> (\<forall>c. c < unat i * unat (Width r) \<longrightarrow> Matrix r' ! c = Matrix r ! c)"
proof (induction r k delta mn i arbitrary: r' v rule: Count_loop.induct)
  case (1 r k delta mn i)
  show ?case
  proof (cases "i < Depth r")
    case False
    with "1.prems" show ?thesis by (simp add: Count_loop.simps [of r])
  next
    case True
    let ?c = "cell r k i"
    let ?r1 = "r\<lparr>Matrix := (Matrix r)[?c := Matrix r ! ?c + word_of_int delta]\<rparr>"
    let ?mn1 = "if Matrix r ! ?c + word_of_int delta < mn then Matrix r ! ?c + word_of_int delta else mn"
    from "1.prems" True have w: "Width r \<noteq> 0" and inb: "?c < length (Matrix r)"
      using cell_unat(2) [of r i k] by (simp_all add: sketch_ok_def)
    have step: "Count_loop ?r1 k delta ?mn1 (i + 1) = Some (r', v)"
      using Count_loop_unfold [OF "1.prems"(1) True, of k delta mn] "1.prems"(2) by simp
    have ok1: "sketch_ok ?r1" using "1.prems"(1) by simp
    have inb': "unat (i * Width r + hash k i mod Width r) < length (Matrix r)"
      using inb by (simp add: cell_def)
    have ih: "Width r' = Width ?r1 \<and> Depth r' = Depth ?r1 \<and> length (Matrix r') = length (Matrix ?r1)
          \<and> Epsilon r' = Epsilon ?r1 \<and> Delta r' = Delta ?r1
          \<and> (\<forall>c. c < unat (i + 1) * unat (Width ?r1) \<longrightarrow> Matrix r' ! c = Matrix ?r1 ! c)"
      using "1.IH" [OF True w refl refl inb' refl refl, of r' v] inb ok1 step
      by (simp add: cell_def cong: if_cong)
    have lo: "unat i * unat (Width r) \<le> ?c"
      using cell_unat(1) [OF "1.prems"(1) True, of k] by simp
    have "\<forall>c. c < unat i * unat (Width r) \<longrightarrow> Matrix r' ! c = Matrix r ! c"
    proof (intro allI impI)
      fix c assume c: "c < unat i * unat (Width r)"
      then have "c < unat (i + 1) * unat (Width r)"
        by (simp add: word_succ_unat [OF True])
      with ih have "Matrix r' ! c = Matrix ?r1 ! c" by simp
      also have "\<dots> = Matrix r ! c" using c lo by simp
      finally show "Matrix r' ! c = Matrix r ! c" .
    qed
    with ih show ?thesis by simp
  qed
qed


lemma cell_bounds:
  assumes "sketch_ok r" "i < Depth r"
  shows "unat i * unat (Width r) \<le> cell r k i" and "cell r k i < unat (i + 1) * unat (Width r)"
proof -
  from assms have w0: "0 < unat (Width r)" by (simp add: sketch_ok_def unat_gt_0)
  show "unat i * unat (Width r) \<le> cell r k i"
    using cell_unat(1) [OF assms, of k] by simp
  have "unat (hash k i) mod unat (Width r) < unat (Width r)" using w0 by simp
  then show "cell r k i < unat (i + 1) * unat (Width r)"
    using cell_unat(1) [OF assms, of k] by (simp add: word_succ_unat [OF assms(2)])
qed

lemma cell_cong:
  "Width r' = Width r \<Longrightarrow> cell r' k i = cell r k i"
  by (simp add: cell_def)

lemma Count_loop_total:
  "sketch_ok r \<Longrightarrow> \<exists>r' v. Count_loop r k delta mn i = Some (r', v)"
proof (induction r k delta mn i rule: Count_loop.induct)
  case (1 r k delta mn i)
  show ?case
  proof (cases "i < Depth r")
    case False
    then show ?thesis by (simp add: Count_loop.simps [of r])
  next
    case True
    from "1.prems" True have w: "Width r \<noteq> 0"
      and inb: "unat (i * Width r + hash k i mod Width r) < length (Matrix r)"
      using cell_unat(2) [of r i k] by (simp_all add: sketch_ok_def cell_def)
    show ?thesis
      using "1.IH" [OF True w refl refl inb refl refl] "1.prems"
        Count_loop_unfold [OF "1.prems" True, of k delta mn] inb
      by (simp add: cell_def cong: if_cong)
  qed
qed

text \<open>Rows from \<open>i\<close> on each receive the converted delta once.\<close>

lemma Count_loop_touched:
  "sketch_ok r \<Longrightarrow> Count_loop r k delta mn i = Some (r', v) \<Longrightarrow> i \<le> row \<Longrightarrow> row < Depth r \<Longrightarrow>
     Matrix r' ! cell r k row = Matrix r ! cell r k row + word_of_int delta"
proof (induction r k delta mn i arbitrary: r' v rule: Count_loop.induct)
  case (1 r k delta mn i)
  from "1.prems" have True: "i < Depth r" by simp
  let ?c = "cell r k i"
  let ?r1 = "r\<lparr>Matrix := (Matrix r)[?c := Matrix r ! ?c + word_of_int delta]\<rparr>"
  let ?mn1 = "if Matrix r ! ?c + word_of_int delta < mn then Matrix r ! ?c + word_of_int delta else mn"
  from "1.prems" True have w: "Width r \<noteq> 0" and inb: "?c < length (Matrix r)"
    using cell_unat(2) [of r i k] by (simp_all add: sketch_ok_def)
  have inb': "unat (i * Width r + hash k i mod Width r) < length (Matrix r)"
    using inb by (simp add: cell_def)
  have step: "Count_loop ?r1 k delta ?mn1 (i + 1) = Some (r', v)"
    using Count_loop_unfold [OF "1.prems"(1) True, of k delta mn] "1.prems"(2) by simp
  have ok1: "sketch_ok ?r1" using "1.prems"(1) by simp
  show ?case
  proof (cases "row = i")
    case True
    have "Matrix r' ! ?c = Matrix ?r1 ! ?c"
      using Count_loop_frame [OF ok1 step] cell_bounds(2) [OF "1.prems"(1) \<open>i < Depth r\<close>, of k]
      by simp
    with inb True show ?thesis by simp
  next
    case False
    with "1.prems"(3) have "i < row" by simp
    then have le: "i + 1 \<le> row" by (simp add: inc_le)
    then have "unat (i + 1) \<le> unat row" by (simp add: word_le_nat_alt)
    then have "unat (i + 1) * unat (Width r) \<le> unat row * unat (Width r)"
      by (rule mult_le_mono1)
    with cell_bounds(1) [OF "1.prems"(1) "1.prems"(4), of k]
      cell_bounds(2) [OF "1.prems"(1) \<open>i < Depth r\<close>, of k]
    have ne: "cell r k row \<noteq> ?c" by linarith
    have "Matrix r' ! cell ?r1 k row = Matrix ?r1 ! cell ?r1 k row + word_of_int delta"
      using "1.IH" [OF \<open>i < Depth r\<close> w refl refl inb' refl refl, of r' v] inb ok1 step le "1.prems"(4)
      by (simp add: cell_def cong: if_cong)
    with ne show ?thesis by simp
  qed
qed

lemma Count_loop_Query_loop:
  "sketch_ok r \<Longrightarrow> Count_loop r k delta mn i = Some (r', v) \<Longrightarrow> Query_loop r' k mn i = Some v"
proof (induction r k delta mn i arbitrary: r' v rule: Count_loop.induct)
  case (1 r k delta mn i)
  show ?case
  proof (cases "i < Depth r")
    case False
    with "1.prems" have "r' = r" "v = mn" by (simp_all add: Count_loop.simps [of r])
    with False show ?thesis by (simp add: Query_loop.simps [of r])
  next
    case True
    let ?c = "cell r k i"
    let ?r1 = "r\<lparr>Matrix := (Matrix r)[?c := Matrix r ! ?c + word_of_int delta]\<rparr>"
    let ?mn1 = "if Matrix r ! ?c + word_of_int delta < mn then Matrix r ! ?c + word_of_int delta else mn"
    from "1.prems" True have w: "Width r \<noteq> 0" and inb: "?c < length (Matrix r)"
      using cell_unat(2) [of r i k] by (simp_all add: sketch_ok_def)
    have inb': "unat (i * Width r + hash k i mod Width r) < length (Matrix r)"
      using inb by (simp add: cell_def)
    have step: "Count_loop ?r1 k delta ?mn1 (i + 1) = Some (r', v)"
      using Count_loop_unfold [OF "1.prems"(1) True, of k delta mn] "1.prems"(2) by simp
    have ok1: "sketch_ok ?r1" using "1.prems"(1) by simp
    have fr: "Width r' = Width r" "Depth r' = Depth r" "length (Matrix r') = length (Matrix r)"
      using Count_loop_frame [OF "1.prems"] by simp_all
    then have ok': "sketch_ok r'" using "1.prems"(1) by (simp add: sketch_ok_def)
    have ih: "Query_loop r' k ?mn1 (i + 1) = Some v"
      using "1.IH" [OF True w refl refl inb' refl refl, of r' v] inb ok1 step
      by (simp add: cell_def cong: if_cong)
    have val: "Matrix r' ! ?c = Matrix r ! ?c + word_of_int delta"
      using Count_loop_touched [OF "1.prems" order_refl True] .
    have "Query_loop r' k mn i
          = Query_loop r' k (if Matrix r' ! cell r' k i < mn then Matrix r' ! cell r' k i else mn) (i + 1)"
      using Query_loop_unfold [OF ok', of i k mn] True fr by simp
    also have "cell r' k i = ?c" using fr by (simp add: cell_def)
    finally show ?thesis using ih val by (simp cong: if_cong)
  qed
qed


section \<open>The rate walk\<close>

lemma Query_loop_total:
  "sketch_ok r \<Longrightarrow> \<exists>v. Query_loop r k mn i = Some v"
proof (induction r k mn i rule: Query_loop.induct)
  case (1 r k mn i)
  show ?case
  proof (cases "i < Depth r")
    case False
    then show ?thesis by (simp add: Query_loop.simps [of r])
  next
    case True
    from "1.prems" True have w: "Width r \<noteq> 0"
      and inb: "unat (i * Width r + hash k i mod Width r) < length (Matrix r)"
      using cell_unat(2) [of r i k] by (simp_all add: sketch_ok_def cell_def)
    show ?thesis
      using "1.IH" [OF True w refl inb refl] "1.prems"
        Query_loop_unfold [OF "1.prems" True, of k mn]
      by (simp add: cell_def cong: if_cong)
  qed
qed

lemma sketchWithTime_Query_total:
  "bucket_ok b \<Longrightarrow> \<exists>v. sketchWithTime_Query b key = Some v"
  using Query_loop_total
  by (auto simp: bucket_ok_def sketchWithTime_Query_def fnvSketch_Query_def split: option.splits)

lemma query_body_total:
  "bucket_ok (buckets rl ! i) \<Longrightarrow> \<exists>s. query_body rl key is latest i now = Some s"
  using sketchWithTime_Query_total [of "buckets rl ! i" key]
  by (auto simp: query_body_def Let_def)

lemma query_body_Add:
  assumes "query_body rl key is latest i now = Some (Add n d)"
  shows "0 < now - Time (buckets rl ! i)"
    and "d = (if is > Time (buckets rl ! i) then now - is else now - Time (buckets rl ! i))"
  using assms
  by (auto simp: query_body_def Let_def split: if_splits option.splits)

lemma query_loop_total:
  "m \<le> length (buckets rl) \<Longrightarrow> buckets_ok rl \<Longrightarrow>
     \<exists>r. query_loop rl key is latest m now interval tc td = Some r"
proof (induction m arbitrary: now interval tc td)
  case 0
  then show ?case by simp
next
  case (Suc m)
  then have "bucket_ok (buckets rl ! m)"
    by (simp add: buckets_ok_def list_all_length)
  from query_body_total [OF this, of key "is" latest now]
  obtain s where s: "query_body rl key is latest m now = Some s" by blast
  from Suc have m: "m \<le> length (buckets rl)" by simp
  show ?case
    using s Suc.IH [OF m Suc.prems(2)]
    by (cases s) simp_all
qed

lemma query_loop_bound:
  "query_loop rl key is latest m now interval tc td = Some (tc', td') \<Longrightarrow>
     interval = now - is \<Longrightarrow> td \<le> td' \<and> td' - td \<le> max 0 interval"
proof (induction m arbitrary: now interval tc td)
  case 0
  then show ?case by simp
next
  case (Suc m)
  show ?case
  proof (cases "interval > 0")
    case False
    with Suc.prems show ?thesis by simp
  next
    case True
    show ?thesis
    proof (cases "query_body rl key is latest m now")
      case None
      with Suc.prems True show ?thesis by simp
    next
      case (Some s)
      show ?thesis
      proof (cases s)
        case Skip
        with Some Suc.prems True Suc.IH [of now interval tc td] show ?thesis by simp
      next
        case Break
        with Some Suc.prems True show ?thesis by simp
      next
        case (Add n d)
        let ?t = "Time (buckets rl ! m)"
        from Some Add have b: "query_body rl key is latest m now = Some (Add n d)" by simp
        note pos = query_body_Add(1) [OF b] and dv = query_body_Add(2) [OF b]
        from Some Add Suc.prems True
        have rec: "query_loop rl key is latest m ?t (interval - (now - ?t)) (tc + n) (td + d) = Some (tc', td')"
          by simp
        have "interval - (now - ?t) = ?t - is" using Suc.prems(2) by simp
        from Suc.IH [OF rec this]
        have ih: "td + d \<le> td'" "td' - (td + d) \<le> max 0 (interval - (now - ?t))" by simp_all
        show ?thesis
        proof (cases "is > ?t")
          case True
          with dv have "d = interval" using Suc.prems(2) by simp
          moreover from True Suc.prems(2) have "interval - (now - ?t) < 0" by simp
          ultimately show ?thesis using ih \<open>interval > 0\<close> by simp
        next
          case False
          with dv have "d = now - ?t" by simp
          moreover from False Suc.prems(2) have "0 \<le> interval - (now - ?t)" by simp
          ultimately show ?thesis using ih pos by simp
        qed
      qed
    qed
  qed
qed

lemma rollingCounter_query_total:
  "buckets_ok rl \<Longrightarrow> \<exists>r. rollingCounter_query rl key now interval latest = Some r"
  using query_loop_total [of "length (buckets rl)" rl key "now - interval" latest now interval 0 0]
  by (auto simp: rollingCounter_query_def Let_def split: option.splits)

lemma rollingCounter_query_bound:
  assumes "rollingCounter_query rl key now interval latest = Some (tc, td)"
  shows "td = 0 \<and> tc = 0 \<or> Second \<le> td \<and> td \<le> interval"
proof -
  from assms obtain tc0 td0 where
    l: "query_loop rl key (now - interval) latest (length (buckets rl)) now interval 0 0 = Some (tc0, td0)"
    and r: "(tc, td) = (if td0 < Second then (0, 0) else (tc0, td0))"
    by (auto simp: rollingCounter_query_def Let_def split: option.splits if_splits)
  from query_loop_bound [OF l] have "0 \<le> td0" "td0 \<le> max 0 interval" by simp_all
  with r show ?thesis by (auto simp: Second_def split: if_splits)
qed

lemma rollingCounter_query_floor:
  "interval < Second \<Longrightarrow> buckets_ok rl \<Longrightarrow> rollingCounter_query rl key now interval latest = Some (0, 0)"
  using rollingCounter_query_total [of rl key now interval latest]
    rollingCounter_query_bound [of rl key now interval latest]
  by fastforce

lemma rollup_loop_floor:
  "interval < Second \<Longrightarrow> list_all buckets_ok levels \<Longrightarrow>
     rollupCounter_Query_loop levels key now interval tc td = Some (tc, td)"
  by (induction levels) (simp_all add: rollingCounter_query_floor)

lemma rollup_loop_reports:
  "rollupCounter_Query_loop levels key now interval tc td =
     (case level_reports levels key now interval of
        None \<Rightarrow> None
      | Some rs \<Rightarrow> Some (tc + sum_list (map fst rs), td + sum_list (map snd rs)))"
  by (induction levels arbitrary: now interval tc td)
     (auto split: option.splits)



section \<open>Claims about the hash kernel and the sketch\<close>

text \<open>
  C6.  The kernel of a key is the FNV-1 fold of its bytes: from the offset
  \<open>0xcbf29ce484222325\<close>, each byte multiplies the accumulator by the prime
  \<open>0x100000001b3\<close> and is then XORed in, in 64-bit arithmetic.  The \<open>i\<close>-th hash of the
  family is \<open>(kernel AND 0xFFFFFFFF) + (kernel >> 32) * i\<close> modulo \<open>2^64\<close>.  Both loops
  of the sketch reduce it modulo the width to find the cell of row \<open>i\<close>.  The kernel of
  the empty key is the offset and the kernel of "abc" is \<open>0xd8dcca186bafadcb\<close>.
\<close>

theorem multihash_fnv1:
  "multihash key = foldl (\<lambda>k b. (k * 0x100000001b3) XOR ucast b) 0xcbf29ce484222325 key
   \<and> hash kn i = (kn AND 0xFFFFFFFF) + drop_bit 32 kn * i
   \<and> unat (hash kn i) = (unat (kn AND 0xFFFFFFFF) + unat (drop_bit 32 kn) * unat i) mod 2 ^ 64
   \<and> cell r kn i = unat (i * Width r + hash kn i mod Width r)
   \<and> Count_loop r kn delta mn i =
       (if i < Depth r then
          if Width r = 0 then None
          else if cell r kn i < length (Matrix r) then
            Count_loop (r\<lparr>Matrix := (Matrix r)[cell r kn i := Matrix r ! cell r kn i + word_of_int delta]\<rparr>)
              kn delta
              (if Matrix r ! cell r kn i + word_of_int delta < mn
               then Matrix r ! cell r kn i + word_of_int delta else mn) (i + 1)
          else None
        else Some (r, mn))
   \<and> Query_loop r kn mn i =
       (if i < Depth r then
          if Width r = 0 then None
          else if cell r kn i < length (Matrix r) then
            Query_loop r kn (if Matrix r ! cell r kn i < mn then Matrix r ! cell r kn i else mn) (i + 1)
          else None
        else Some mn)
   \<and> multihash [] = 0xcbf29ce484222325
   \<and> multihash [0x61, 0x62, 0x63] = 0xd8dcca186bafadcb"
proof -
  have fold: "multihash_loop k key = foldl (\<lambda>k b. (k * 0x100000001b3) XOR ucast b) k key" for k
    by (induction key arbitrary: k) (simp_all add: fnvPrime64_def)
  have a: "multihash key = foldl (\<lambda>k b. (k * 0x100000001b3) XOR ucast b) 0xcbf29ce484222325 key"
    using fold [of fnvOffset64] by (simp add: multihash_def fnvOffset64_def)
  have b: "hash kn i = (kn AND 0xFFFFFFFF) + drop_bit 32 kn * i"
    by (simp add: hash_def)
  have c: "unat (hash kn i) = (unat (kn AND 0xFFFFFFFF) + unat (drop_bit 32 kn) * unat i) mod 2 ^ 64"
    by (simp add: hash_def unat_word_ariths mod_simps)
  have d: "cell r kn i = unat (i * Width r + hash kn i mod Width r)"
    by (simp add: cell_def)
  have e: "Count_loop r kn delta mn i =
       (if i < Depth r then
          if Width r = 0 then None
          else if cell r kn i < length (Matrix r) then
            Count_loop (r\<lparr>Matrix := (Matrix r)[cell r kn i := Matrix r ! cell r kn i + word_of_int delta]\<rparr>)
              kn delta
              (if Matrix r ! cell r kn i + word_of_int delta < mn
               then Matrix r ! cell r kn i + word_of_int delta else mn) (i + 1)
          else None
        else Some (r, mn))"
    by (subst Count_loop.simps) (simp add: Let_def cell_def cong: if_cong)
  have f: "Query_loop r kn mn i =
       (if i < Depth r then
          if Width r = 0 then None
          else if cell r kn i < length (Matrix r) then
            Query_loop r kn (if Matrix r ! cell r kn i < mn then Matrix r ! cell r kn i else mn) (i + 1)
          else None
        else Some mn)"
    by (subst Query_loop.simps) (simp add: Let_def cell_def)
  have g: "multihash [] = 0xcbf29ce484222325"
    by (simp add: multihash_def fnvOffset64_def)
  have h: "multihash [0x61, 0x62, 0x63] = 0xd8dcca186bafadcb"
    by (simp add: multihash_def fnvOffset64_def fnvPrime64_def)
  from a b c d e f g h show ?thesis by (intro conjI)
qed

lemma Count_loop_untouched:
  "sketch_ok r \<Longrightarrow> Count_loop r k delta mn i = Some (r', v) \<Longrightarrow> c < length (Matrix r) \<Longrightarrow>
     (\<forall>row. i \<le> row \<and> row < Depth r \<longrightarrow> c \<noteq> cell r k row) \<Longrightarrow>
     Matrix r' ! c = Matrix r ! c"
proof (induction r k delta mn i arbitrary: r' v rule: Count_loop.induct)
  case (1 r k delta mn i)
  show ?case
  proof (cases "i < Depth r")
    case False
    with "1.prems" show ?thesis by (simp add: Count_loop.simps [of r])
  next
    case True
    let ?c = "cell r k i"
    let ?r1 = "r\<lparr>Matrix := (Matrix r)[?c := Matrix r ! ?c + word_of_int delta]\<rparr>"
    let ?mn1 = "if Matrix r ! ?c + word_of_int delta < mn then Matrix r ! ?c + word_of_int delta else mn"
    from "1.prems" True have w: "Width r \<noteq> 0" and inb: "?c < length (Matrix r)"
      using cell_unat(2) [of r i k] by (simp_all add: sketch_ok_def)
    have inb': "unat (i * Width r + hash k i mod Width r) < length (Matrix r)"
      using inb by (simp add: cell_def)
    have step: "Count_loop ?r1 k delta ?mn1 (i + 1) = Some (r', v)"
      using Count_loop_unfold [OF "1.prems"(1) True, of k delta mn] "1.prems"(2) by simp
    have ok1: "sketch_ok ?r1" using "1.prems"(1) by simp
    have ne: "c \<noteq> ?c" using "1.prems"(4) True by simp
    have later: "\<forall>row. i + 1 \<le> row \<and> row < Depth ?r1 \<longrightarrow> c \<noteq> cell ?r1 k row"
    proof (intro allI impI)
      fix row assume a: "i + 1 \<le> row \<and> row < Depth ?r1"
      have "i \<le> i + 1" using word_succ_unat [OF True] by (simp add: word_le_nat_alt)
      with a have "i \<le> row" by (blast intro: order_trans)
      with a "1.prems"(4) show "c \<noteq> cell ?r1 k row" by simp
    qed
    have c1: "c < length (Matrix ?r1)" using "1.prems"(3) by simp
    have "Matrix r' ! c = Matrix ?r1 ! c"
      using "1.IH" [OF True w refl refl inb' refl refl, of r' v] inb ok1 step c1 later
      by (simp add: cell_def cong: if_cong)
    with ne show ?thesis by simp
  qed
qed

lemma Query_loop_min:
  "sketch_ok r \<Longrightarrow> Query_loop r k mn i = Some v \<Longrightarrow>
     v \<le> mn \<and> (\<forall>row. i \<le> row \<and> row < Depth r \<longrightarrow> v \<le> Matrix r ! cell r k row)
     \<and> (v = mn \<or> (\<exists>row. i \<le> row \<and> row < Depth r \<and> v = Matrix r ! cell r k row))"
proof (induction r k mn i arbitrary: v rule: Query_loop.induct)
  case (1 r k mn i)
  show ?case
  proof (cases "i < Depth r")
    case False
    with "1.prems" have "v = mn" by (simp add: Query_loop.simps [of r])
    moreover have "\<not> (i \<le> row \<and> row < Depth r)" for row
      using False by (auto dest: order.strict_trans1)
    ultimately show ?thesis by blast
  next
    case True
    let ?x = "Matrix r ! cell r k i"
    let ?mn1 = "if ?x < mn then ?x else mn"
    from "1.prems" True have w: "Width r \<noteq> 0"
      and inb: "unat (i * Width r + hash k i mod Width r) < length (Matrix r)"
      using cell_unat(2) [of r i k] by (simp_all add: sketch_ok_def cell_def)
    have step: "Query_loop r k ?mn1 (i + 1) = Some v"
      using Query_loop_unfold [OF "1.prems"(1) True, of k mn] "1.prems"(2) by simp
    have ih: "v \<le> ?mn1 \<and> (\<forall>row. i + 1 \<le> row \<and> row < Depth r \<longrightarrow> v \<le> Matrix r ! cell r k row)
         \<and> (v = ?mn1 \<or> (\<exists>row. i + 1 \<le> row \<and> row < Depth r \<and> v = Matrix r ! cell r k row))"
      using "1.IH" [OF True w refl inb refl "1.prems"(1), of v] step
      by (simp add: cell_def cong: if_cong)
    have ii: "i \<le> i + 1" using word_succ_unat [OF True] by (simp add: word_le_nat_alt)
    have m1: "?mn1 \<le> mn" "?mn1 \<le> ?x" by auto
    from ih have vm1: "v \<le> ?mn1" by blast
    have a: "v \<le> mn" using vm1 m1(1) by (rule order_trans)
    have vx: "v \<le> ?x" using vm1 m1(2) by (rule order_trans)
    have b: "\<forall>row. i \<le> row \<and> row < Depth r \<longrightarrow> v \<le> Matrix r ! cell r k row"
    proof (intro allI impI)
      fix row assume r: "i \<le> row \<and> row < Depth r"
      show "v \<le> Matrix r ! cell r k row"
      proof (cases "row = i")
        case True
        with vx show ?thesis by simp
      next
        case False
        with r have "i < row" by (auto simp: order_less_le)
        then have "i + 1 \<le> row" by (simp add: inc_le)
        with r ih show ?thesis by blast
      qed
    qed
    have c: "v = mn \<or> (\<exists>row. i \<le> row \<and> row < Depth r \<and> v = Matrix r ! cell r k row)"
    proof -
      from ih have "v = ?mn1 \<or> (\<exists>row. i + 1 \<le> row \<and> row < Depth r \<and> v = Matrix r ! cell r k row)"
        by blast
      then show ?thesis
      proof
        assume "v = ?mn1"
        then have "v = mn \<or> v = ?x" by (auto split: if_splits)
        with True show ?thesis by auto
      next
        assume "\<exists>row. i + 1 \<le> row \<and> row < Depth r \<and> v = Matrix r ! cell r k row"
        then obtain row where r: "i + 1 \<le> row" "row < Depth r" "v = Matrix r ! cell r k row" by blast
        from ii r(1) have "i \<le> row" by (rule order_trans)
        with r show ?thesis by blast
      qed
    qed
    from a b c show ?thesis by blast
  qed
qed

text \<open>
  C7.  On a well-formed sketch \<open>Count\<close> does not panic, and the value it returns is the
  value \<open>Query\<close> returns for the same key on the updated sketch.  The updated sketch
  keeps its parameters and sizes; the cell of each row that the key visits holds its old
  value plus \<open>uint64(delta)\<close> and every other cell is unchanged; the value returned is
  the minimum of the visited cells after the update (\<open>MaxUint64\<close> for depth 0).  This
  holds for every delta, the non-negative ones in particular.
\<close>

theorem Count_returns_Query:
  assumes "sketch_ok r"
  shows "\<exists>r' v. fnvSketch_Count r key delta = Some (r', v) \<and> fnvSketch_Query r' key = Some v
           \<and> Width r' = Width r \<and> Depth r' = Depth r \<and> Epsilon r' = Epsilon r \<and> Delta r' = Delta r
           \<and> length (Matrix r') = length (Matrix r)
           \<and> (\<forall>row. row < Depth r \<longrightarrow>
                 Matrix r' ! cell r (multihash key) row
                 = Matrix r ! cell r (multihash key) row + word_of_int delta)
           \<and> (\<forall>c. c < length (Matrix r) \<and> (\<forall>row. row < Depth r \<longrightarrow> c \<noteq> cell r (multihash key) row) \<longrightarrow>
                 Matrix r' ! c = Matrix r ! c)
           \<and> (\<forall>row. row < Depth r \<longrightarrow> v \<le> Matrix r' ! cell r (multihash key) row)
           \<and> (v = MaxUint64 \<or> (\<exists>row. row < Depth r \<and> v = Matrix r' ! cell r (multihash key) row))"
proof -
  let ?k = "multihash key"
  from Count_loop_total [OF assms, of ?k delta MaxUint64 0]
  obtain r' v where c: "Count_loop r ?k delta MaxUint64 0 = Some (r', v)" by blast
  have q: "Query_loop r' ?k MaxUint64 0 = Some v" using Count_loop_Query_loop [OF assms c] .
  from Count_loop_frame [OF assms c]
  have fr: "Width r' = Width r" "Depth r' = Depth r" "Epsilon r' = Epsilon r" "Delta r' = Delta r"
    "length (Matrix r') = length (Matrix r)" by simp_all
  then have ok': "sketch_ok r'" using assms by (simp add: sketch_ok_def)
  have cl: "cell r' ?k row = cell r ?k row" for row using fr by (simp add: cell_def)
  have t: "\<forall>row. row < Depth r \<longrightarrow>
                 Matrix r' ! cell r ?k row = Matrix r ! cell r ?k row + word_of_int delta"
    using Count_loop_touched [OF assms c] by simp
  have u: "\<forall>c. c < length (Matrix r) \<and> (\<forall>row. row < Depth r \<longrightarrow> c \<noteq> cell r ?k row) \<longrightarrow>
                 Matrix r' ! c = Matrix r ! c"
    using Count_loop_untouched [OF assms c] by simp
  from Query_loop_min [OF ok' q]
  have m: "\<forall>row. row < Depth r \<longrightarrow> v \<le> Matrix r' ! cell r ?k row"
    and e: "v = MaxUint64 \<or> (\<exists>row. row < Depth r \<and> v = Matrix r' ! cell r ?k row)"
    using fr cl by simp_all
  have cq: "fnvSketch_Count r key delta = Some (r', v)" "fnvSketch_Query r' key = Some v"
    using c q by (simp_all add: fnvSketch_Count_def fnvSketch_Query_def)
  from cq fr t u m e show ?thesis by blast
qed


theorem Count_returns_Query_witness:
  "sketch_ok \<lparr>Epsilon = 0.999, Delta = 0.99, Width = 3, Depth = 2, Matrix = [1, 2, 3, 4, 5, 6]\<rparr>
   \<and> fnvSketch_Count \<lparr>Epsilon = 0.999, Delta = 0.99, Width = 3, Depth = 2,
                        Matrix = [1, 2, 3, 4, 5, 6]\<rparr> [0x61] 5
       = Some (\<lparr>Epsilon = 0.999, Delta = 0.99, Width = 3, Depth = 2, Matrix = [1, 7, 3, 9, 5, 6]\<rparr>, 7)
   \<and> fnvSketch_Query \<lparr>Epsilon = 0.999, Delta = 0.99, Width = 3, Depth = 2,
                        Matrix = [1, 7, 3, 9, 5, 6]\<rparr> [0x61] = Some 7
   \<and> cell \<lparr>Epsilon = 0.999, Delta = 0.99, Width = 3, Depth = 2, Matrix = [1, 2, 3, 4, 5, 6]\<rparr>
          (multihash [0x61]) 0 = 1
   \<and> cell \<lparr>Epsilon = 0.999, Delta = 0.99, Width = 3, Depth = 2, Matrix = [1, 2, 3, 4, 5, 6]\<rparr>
          (multihash [0x61]) 1 = 3"
proof -
  let ?r = "\<lparr>Epsilon = 0.999, Delta = 0.99, Width = 3, Depth = 2, Matrix = [1, 2, 3, 4, 5, 6 :: uint64]\<rparr>"
  have ok: "sketch_ok ?r" by (simp add: sketch_ok_def)
  have c: "fnvSketch_Count ?r [0x61] 5
       = Some (\<lparr>Epsilon = 0.999, Delta = 0.99, Width = 3, Depth = 2, Matrix = [1, 7, 3, 9, 5, 6]\<rparr>, 7)"
    by (simp add: fnvSketch_Count_def Count_loop.simps Let_def MaxUint64_def multihash_def
        fnvOffset64_def fnvPrime64_def hash_def)
  have cells: "cell ?r (multihash [0x61]) 0 = 1" "cell ?r (multihash [0x61]) 1 = 3"
    by (simp_all add: cell_def multihash_def fnvOffset64_def fnvPrime64_def hash_def)
  from Count_returns_Query [OF ok, of "[0x61]" 5] c
  have "fnvSketch_Query \<lparr>Epsilon = 0.999, Delta = 0.99, Width = 3, Depth = 2,
                        Matrix = [1, 7, 3, 9, 5, 6]\<rparr> [0x61] = Some 7"
    by auto
  with ok c cells show ?thesis by simp
qed

text \<open>
  C10.  \<open>Count\<close> does not reject a negative delta: on a well-formed sketch it returns,
  and each cell it touches has grown by \<open>2^64 + delta\<close> modulo \<open>2^64\<close>; the value
  returned is what a later \<open>Query\<close> reports.
\<close>

theorem Count_negative_delta_wraps:
  assumes "sketch_ok r" and "delta < 0" and "- (2 ^ 63) \<le> delta"
  shows "\<exists>r' v. fnvSketch_Count r key delta = Some (r', v)
           \<and> (\<forall>row. row < Depth r \<longrightarrow>
                 unat (Matrix r' ! cell r (multihash key) row)
                 = (unat (Matrix r ! cell r (multihash key) row) + nat (2 ^ 64 + delta)) mod 2 ^ 64)
           \<and> fnvSketch_Query r' key = Some v"
proof -
  from Count_loop_total [OF assms(1), of "multihash key" delta MaxUint64 0]
  obtain r' v where c: "Count_loop r (multihash key) delta MaxUint64 0 = Some (r', v)" by blast
  have w: "unat (word_of_int delta :: uint64) = nat (2 ^ 64 + delta)"
  proof -
    have "uint (word_of_int delta :: uint64) = delta mod 2 ^ 64"
      by (simp add: uint_word_of_int)
    also have "\<dots> = (2 ^ 64 + delta) mod 2 ^ 64" by simp
    also have "\<dots> = 2 ^ 64 + delta" using assms(2,3) by (intro mod_pos_pos_trivial) simp_all
    finally show ?thesis by (simp add: unat_eq_nat_uint)
  qed
  have "unat (Matrix r' ! cell r (multihash key) row)
        = (unat (Matrix r ! cell r (multihash key) row) + nat (2 ^ 64 + delta)) mod 2 ^ 64"
    if "row < Depth r" for row
    using Count_loop_touched [OF assms(1) c _ that] w
    by (simp add: unat_word_ariths)
  with c Count_loop_Query_loop [OF assms(1) c] show ?thesis
    by (simp add: fnvSketch_Count_def fnvSketch_Query_def)
qed

theorem Count_negative_delta_wraps_witness:
  "sketch_ok \<lparr>Epsilon = 0.999, Delta = 0.99, Width = 3, Depth = 2, Matrix = [0, 0, 0, 0, 0, 0]\<rparr>
   \<and> (- 1 :: int) < 0 \<and> - (2 ^ 63) \<le> (- 1 :: int)
   \<and> (\<exists>r' v. fnvSketch_Count \<lparr>Epsilon = 0.999, Delta = 0.99, Width = 3, Depth = 2,
                   Matrix = [0, 0, 0, 0, 0, 0]\<rparr> [0x61] (- 1) = Some (r', v)
        \<and> unat (Matrix r' ! cell \<lparr>Epsilon = 0.999, Delta = 0.99, Width = 3, Depth = 2,
                   Matrix = [0, 0, 0, 0, 0, 0]\<rparr> (multihash [0x61]) 0)
            = (unat ([0, 0, 0, 0, 0, 0 :: uint64] ! cell \<lparr>Epsilon = 0.999, Delta = 0.99, Width = 3,
                   Depth = 2, Matrix = [0, 0, 0, 0, 0, 0]\<rparr> (multihash [0x61]) 0)
               + 18446744073709551615) mod 2 ^ 64
        \<and> unat (Matrix r' ! cell \<lparr>Epsilon = 0.999, Delta = 0.99, Width = 3, Depth = 2,
                   Matrix = [0, 0, 0, 0, 0, 0]\<rparr> (multihash [0x61]) 1)
            = (unat ([0, 0, 0, 0, 0, 0 :: uint64] ! cell \<lparr>Epsilon = 0.999, Delta = 0.99, Width = 3,
                   Depth = 2, Matrix = [0, 0, 0, 0, 0, 0]\<rparr> (multihash [0x61]) 1)
               + 18446744073709551615) mod 2 ^ 64
        \<and> fnvSketch_Query r' [0x61] = Some v)"
proof -
  from Count_negative_delta_wraps [of "\<lparr>Epsilon = 0.999, Delta = 0.99, Width = 3, Depth = 2,
                   Matrix = [0, 0, 0, 0, 0, 0]\<rparr>" "- 1" "[0x61]"]
  obtain r' v where
    c: "fnvSketch_Count \<lparr>Epsilon = 0.999, Delta = 0.99, Width = 3, Depth = 2,
                   Matrix = [0, 0, 0, 0, 0, 0]\<rparr> [0x61] (- 1) = Some (r', v)"
    and t: "\<forall>row. row < 2 \<longrightarrow>
              unat (Matrix r' ! cell \<lparr>Epsilon = 0.999, Delta = 0.99, Width = 3, Depth = 2,
                   Matrix = [0, 0, 0, 0, 0, 0]\<rparr> (multihash [0x61]) row)
              = (unat ([0, 0, 0, 0, 0, 0 :: uint64] ! cell \<lparr>Epsilon = 0.999, Delta = 0.99, Width = 3,
                   Depth = 2, Matrix = [0, 0, 0, 0, 0, 0]\<rparr> (multihash [0x61]) row)
                 + 18446744073709551615) mod 2 ^ 64"
    and q: "fnvSketch_Query r' [0x61] = Some v"
    by (auto simp: sketch_ok_def)
  have "(0 :: uint64) < 2" "(1 :: uint64) < 2" by simp_all
  with t c q show ?thesis by (simp add: sketch_ok_def)
qed

section \<open>Claims about the rate walk and the rollup\<close>

lemma rollup_loop_duration:
  "rollupCounter_Query_loop levels key now interval tc td = Some (tc', td') \<Longrightarrow>
     td' = td \<or> td + Second \<le> td'"
proof (induction levels arbitrary: now interval tc td)
  case Nil
  then show ?case by simp
next
  case (Cons c levels)
  show ?case
  proof (cases "interval \<le> 0")
    case True
    with Cons.prems show ?thesis by simp
  next
    case False
    with Cons.prems obtain n d where q: "rollingCounter_query c key now interval 0 = Some (n, d)"
      and rec: "rollupCounter_Query_loop levels key (now - d) (interval - d) (tc + n) (td + d) = Some (tc', td')"
      by (auto split: option.splits)
    from rollingCounter_query_bound [OF q] Cons.IH [OF rec] show ?thesis
      by (auto simp: Second_def)
  qed
qed

text \<open>
  C3.  With well-formed buckets, \<open>Query\<close> of a rolling counter and of a rollup counter
  returns 0 for an interval below one second.  When the loop of the walk has
  accumulated less than one second the walk returns \<open>(0, 0)\<close> and \<open>Query\<close> returns 0,
  for the rollup as well; and \<open>Query\<close> and \<open>Count\<close> turn a walk result of duration 0
  into the rate 0.
\<close>

theorem rate_floor:
  assumes "buckets_ok rl" and "list_all buckets_ok (Levels rc)"
  shows "(interval < Second \<longrightarrow>
            rollingCounter_Query rl key now interval = Some 0
            \<and> rollupCounter_Query rc key now interval = Some 0)
       \<and> (\<forall>tc td. query_loop rl key (now - interval) latest (length (buckets rl)) now interval 0 0
                      = Some (tc, td) \<and> td < Second \<longrightarrow>
             rollingCounter_query rl key now interval latest = Some (0, 0))
       \<and> (\<forall>tc td. query_loop rl key (now - interval) 0 (length (buckets rl)) now interval 0 0
                      = Some (tc, td) \<and> td < Second \<longrightarrow>
             rollingCounter_Query rl key now interval = Some 0)
       \<and> (\<forall>tc td. rollupCounter_Query_loop (Levels rc) key now interval 0 0 = Some (tc, td)
                      \<and> td < Second \<longrightarrow>
             rollupCounter_Query rc key now interval = Some 0)
       \<and> (\<forall>tc. rollingCounter_query rl key now interval 0 = Some (tc, 0) \<longrightarrow>
             rollingCounter_Query rl key now interval = Some 0)
       \<and> (\<forall>rl' tc. rollingCounter_count widthOf depthOf rl key delta now interval = Some (rl', tc, 0) \<longrightarrow>
             rollingCounter_Count widthOf depthOf rl key delta now interval = Some (rl', 0))"
proof -
  have a: "rollingCounter_Query rl key now interval = Some 0" if "interval < Second"
    using rollingCounter_query_floor [OF that assms(1), of key now 0]
    by (simp add: rollingCounter_Query_def rate_def)
  have b: "rollupCounter_Query rc key now interval = Some 0" if "interval < Second"
    using rollup_loop_floor [OF that assms(2), of key now 0 0]
    by (simp add: rollupCounter_Query_def rate_def)
  have c: "rollingCounter_query rl key now interval latest = Some (0, 0)"
    if "query_loop rl key (now - interval) latest (length (buckets rl)) now interval 0 0 = Some (tc, td)"
      and "td < Second" for tc td
    using that by (simp add: rollingCounter_query_def)
  have d: "rollingCounter_Query rl key now interval = Some 0"
    if "query_loop rl key (now - interval) 0 (length (buckets rl)) now interval 0 0 = Some (tc, td)"
      and "td < Second" for tc td
    using that by (simp add: rollingCounter_Query_def rollingCounter_query_def rate_def)
  have e: "rollupCounter_Query rc key now interval = Some 0"
    if "rollupCounter_Query_loop (Levels rc) key now interval 0 0 = Some (tc, td)"
      and "td < Second" for tc td
  proof -
    from rollup_loop_duration [OF that(1)] that(2) have "td = 0" by (simp add: Second_def)
    with that(1) show ?thesis by (simp add: rollupCounter_Query_def rate_def)
  qed
  have f: "rollingCounter_Query rl key now interval = Some 0"
    if "rollingCounter_query rl key now interval 0 = Some (tc, 0)" for tc
    using that by (simp add: rollingCounter_Query_def rate_def)
  have g: "rollingCounter_Count widthOf depthOf rl key delta now interval = Some (rl', 0)"
    if "rollingCounter_count widthOf depthOf rl key delta now interval = Some (rl', tc, 0)" for rl' tc
    using that by (simp add: rollingCounter_Count_def rate_def)
  from a b c d e f g show ?thesis by blast
qed

theorem rate_floor_witness:
  "buckets_ok twoBuckets
   \<and> list_all buckets_ok (Levels \<lparr>Levels = [twoBuckets]\<rparr>)
   \<and> (500000000 :: int) < Second
   \<and> query_loop twoBuckets [] (120000000000 - 500000000) 0 (length (buckets twoBuckets))
         120000000000 500000000 0 0 = Some (1 / 24, 500000000)
   \<and> rollingCounter_query twoBuckets [] 120000000000 500000000 0 = Some (0, 0)
   \<and> rollingCounter_Query twoBuckets [] 120000000000 500000000 = Some 0
   \<and> rollupCounter_Query \<lparr>Levels = [twoBuckets]\<rparr> [] 120000000000 500000000 = Some 0
   \<and> rollingCounter_Query twoBuckets [] 120000000000 90000000000 = Some (7 / 90)"
proof -
  have ok: "buckets_ok twoBuckets"
    by (simp add: buckets_ok_def bucket_ok_def sketch_ok_def twoBuckets_def)
  then have oks: "list_all buckets_ok (Levels \<lparr>Levels = [twoBuckets]\<rparr>)" by simp
  have lt: "(500000000 :: int) < Second" by (simp add: Second_def)
  have walk: "query_loop twoBuckets [] (120000000000 - 500000000) 0 (length (buckets twoBuckets))
         120000000000 500000000 0 0 = Some (1 / 24, 500000000)"
    by (simp add: twoBuckets_def query_body_def sketchWithTime_Query_def fnvSketch_Query_def
        Query_loop.simps MaxUint64_def Let_def)
  have full: "rollingCounter_Query twoBuckets [] 120000000000 90000000000 = Some (7 / 90)"
    by (simp add: twoBuckets_def rollingCounter_Query_def rollingCounter_query_def query_body_def
        sketchWithTime_Query_def fnvSketch_Query_def Query_loop.simps MaxUint64_def rate_def
        Second_def Let_def)
  note floor = rate_floor [OF ok oks, of 500000000 "[]" 120000000000 0]
  from floor lt
  have q: "rollingCounter_Query twoBuckets [] 120000000000 500000000 = Some 0"
    "rollupCounter_Query \<lparr>Levels = [twoBuckets]\<rparr> [] 120000000000 500000000 = Some 0"
    by blast+
  from floor lt walk
  have w: "rollingCounter_query twoBuckets [] 120000000000 500000000 0 = Some (0, 0)"
    by blast
  from ok oks lt walk w q full show ?thesis by (intro conjI)
qed

text \<open>
  C4.  The rollup \<open>Query\<close> asks the levels from the finest on, each with override 0 at
  the cursor moved back by the durations reported so far and for what is left of the
  interval, until nothing is left or the levels are used up; its result is the sum of
  the reported counts over the sum of the reported durations, times one second, or 0
  when that sum of durations is 0.
\<close>

theorem rollup_Query_composition:
  "rollupCounter_Query rc key now interval = spec_rollup_Query rc key now interval"
  by (simp add: rollupCounter_Query_def spec_rollup_Query_def rollup_loop_reports rate_def Let_def
      split: option.splits)


text \<open>The definitions a run of the operations on a concrete counter unfolds.\<close>

lemmas run_simps =
  rollingCounter_Count_def rollingCounter_count_def rollingCounter_Query_def
  rollingCounter_query_def query_body_def sketchWithTime_Count_def sketchWithTime_Query_def
  fnvSketch_Count_def fnvSketch_Query_def Count_loop.simps Query_loop.simps NewSketch_def
  RollingCounter_def getWithDefault_def DefaultEpsilon_def DefaultDelta_def MaxUint64_def
  rate_def Second_def Let_def

text \<open>
  C1.  As amended: for a bucket that starts strictly before the window start, is ahead
  of the cursor and does not meet the break condition, the walk scales the count by
  \<open>d2 / d\<close> with \<open>d2 = min(now, bucketStart + Interval) - intervalStart\<close> and adds it
  with the duration \<open>now - intervalStart\<close>, where \<open>now\<close> is the cursor of the walk at
  that bucket: the query instant for the first bucket that contributes, the start of the
  bucket that contributed last after that.
\<close>

theorem partial_bucket_weighting:
  assumes before: "Time (buckets rl ! i) < intervalStart"
    and pos: "0 < now - Time (buckets rl ! i)"
    and nobreak: "\<not> (now - Time (buckets rl ! i))
                     - (min now (Time (buckets rl ! i) + Interval rl) - intervalStart) > Interval rl"
    and cnt: "(if i = length (buckets rl) - 1 \<and> latest \<noteq> 0 then Some latest
               else sketchWithTime_Query (buckets rl ! i) key) = Some c"
    and run: "0 < interval"
  shows "query_body rl key intervalStart latest i now
           = Some (Add (real (unat c)
                          * (real_of_int (min now (Time (buckets rl ! i) + Interval rl) - intervalStart)
                             / real_of_int (now - Time (buckets rl ! i))))
                       (now - intervalStart))
       \<and> query_loop rl key intervalStart latest (Suc i) now interval tc td
           = query_loop rl key intervalStart latest i (Time (buckets rl ! i))
               (interval - (now - Time (buckets rl ! i)))
               (tc + real (unat c)
                          * (real_of_int (min now (Time (buckets rl ! i) + Interval rl) - intervalStart)
                             / real_of_int (now - Time (buckets rl ! i))))
               (td + (now - intervalStart))"
proof -
  have m: "(if Time (buckets rl ! i) + Interval rl > now then now else Time (buckets rl ! i) + Interval rl)
           = min now (Time (buckets rl ! i) + Interval rl)"
    by (simp add: min_def)
  have b: "query_body rl key intervalStart latest i now
           = Some (Add (real (unat c)
                          * (real_of_int (min now (Time (buckets rl ! i) + Interval rl) - intervalStart)
                             / real_of_int (now - Time (buckets rl ! i))))
                       (now - intervalStart))"
    unfolding query_body_def Let_def cnt m
    using before pos nobreak by simp
  with run show ?thesis by simp
qed

theorem partial_bucket_weighting_witness:
  "Time (buckets twoBuckets ! 0) < 30000000000
   \<and> 0 < 60000000000 - Time (buckets twoBuckets ! 0)
   \<and> query_body twoBuckets [] 30000000000 0 0 60000000000 = Some (Add 2 30000000000)
   \<and> query_loop twoBuckets [] 30000000000 0 (Suc 0) 60000000000 30000000000 5 60000000000
       = Some (7, 90000000000)"
proof -
  have c: "(if 0 = length (buckets twoBuckets) - 1 \<and> (0::uint64) \<noteq> 0 then Some 0
            else sketchWithTime_Query (buckets twoBuckets ! 0) []) = Some 4"
    by (simp add: twoBuckets_def run_simps)
  have t: "Time (buckets twoBuckets ! 0) = 0" "Interval twoBuckets = 60000000000"
    by (simp_all add: twoBuckets_def)
  from partial_bucket_weighting [of twoBuckets 0 30000000000 60000000000 0 "[]" 4 30000000000 5 60000000000, OF _ _ _ c]
  show ?thesis by (simp add: t)
qed

text \<open>
  The duration is not the original query instant minus the window start: in a query at
  120 s over 90 s, the bucket at 0 s is reached with the cursor at 60 s and adds 30 s,
  not 90 s, and the walk returns 90 s in total.
\<close>

theorem later_bucket_duration_counterexample:
  "rollingCounter_query twoBuckets [] 120000000000 90000000000 0 = Some (7, 90000000000)
   \<and> query_body twoBuckets [] (120000000000 - 90000000000) 0 1 120000000000
       = Some (Add 5 60000000000)
   \<and> query_body twoBuckets [] (120000000000 - 90000000000) 0 0 60000000000
       = Some (Add 2 30000000000)
   \<and> (30000000000 :: int) \<noteq> 120000000000 - (120000000000 - 90000000000)"
  by (simp add: twoBuckets_def run_simps)

section \<open>The scenario of the time reversal\<close>

lemma Query_loop_const:
  "sketch_ok r \<Longrightarrow> (\<forall>row. i \<le> row \<and> row < Depth r \<longrightarrow> Matrix r ! cell r k row = x) \<Longrightarrow>
     Query_loop r k mn i = Some (if i < Depth r then (if x < mn then x else mn) else mn)"
proof (induction r k mn i rule: Query_loop.induct)
  case (1 r k mn i)
  show ?case
  proof (cases "i < Depth r")
    case False
    then show ?thesis by (simp add: Query_loop.simps [of r])
  next
    case True
    from "1.prems" True have w: "Width r \<noteq> 0"
      and inb: "unat (i * Width r + hash k i mod Width r) < length (Matrix r)"
      using cell_unat(2) [of r i k] by (simp_all add: sketch_ok_def cell_def)
    from "1.prems"(2) True have here: "Matrix r ! cell r k i = x" by simp
    have later: "\<forall>row. i + 1 \<le> row \<and> row < Depth r \<longrightarrow> Matrix r ! cell r k row = x"
    proof (intro allI impI)
      fix row assume a: "i + 1 \<le> row \<and> row < Depth r"
      have "i \<le> i + 1" using word_succ_unat [OF True] by (simp add: word_le_nat_alt)
      with a have "i \<le> row" by (blast intro: order_trans)
      with a "1.prems"(2) show "Matrix r ! cell r k row = x" by simp
    qed
    have ih: "Query_loop r k (if x < mn then x else mn) (i + 1)
          = Some (if i + 1 < Depth r then (if x < (if x < mn then x else mn) then x else (if x < mn then x else mn))
                  else (if x < mn then x else mn))"
      using "1.IH" [OF True w refl inb refl "1.prems"(1) later] here
      by (simp add: cell_def cong: if_cong)
    show ?thesis
      using Query_loop_unfold [OF "1.prems"(1) True, of k mn] ih here True
      by (simp cong: if_cong)
  qed
qed


lemma le_MaxUint64: "\<not> x < MaxUint64 \<Longrightarrow> x = MaxUint64"
proof -
  assume a: "\<not> x < MaxUint64"
  have "unat x < 2 ^ 64" using unsigned_less [of x] by simp
  then have "x \<le> MaxUint64" by (simp add: word_le_nat_alt MaxUint64_def)
  with a show ?thesis by simp
qed

lemma fresh_Count:
  assumes w: "W \<noteq> 0" and d: "D \<noteq> 0" and nw: "unat W * unat D < 2 ^ 64"
  shows "\<exists>s'. fnvSketch_Count \<lparr>Epsilon = e, Delta = dl, Width = W, Depth = D,
                   Matrix = replicate (unat (W * D)) 0\<rparr> key delta = Some (s', word_of_int delta)
              \<and> fnvSketch_Query s' key = Some (word_of_int delta)"
proof -
  let ?s = "\<lparr>Epsilon = e, Delta = dl, Width = W, Depth = D, Matrix = replicate (unat (W * D)) 0\<rparr>"
  let ?k = "multihash key"
  let ?x = "word_of_int delta :: uint64"
  have len: "unat (W * D) = unat W * unat D"
    using nw by (simp add: unat_word_ariths)
  have ok: "sketch_ok ?s" using w nw len by (simp add: sketch_ok_def)
  from Count_loop_total [OF ok, of ?k delta MaxUint64 0]
  obtain s' v where c: "Count_loop ?s ?k delta MaxUint64 0 = Some (s', v)" by blast
  from Count_loop_frame [OF ok c]
  have fr: "Width s' = W" "Depth s' = D" "length (Matrix s') = unat (W * D)" by simp_all
  then have ok': "sketch_ok s'" using w nw len by (simp add: sketch_ok_def)
  have cells: "\<forall>row. 0 \<le> row \<and> row < Depth s' \<longrightarrow> Matrix s' ! cell s' ?k row = ?x"
  proof (intro allI impI)
    fix row assume "0 \<le> row \<and> row < Depth s'"
    then have r: "row < Depth ?s" using fr by simp
    have "cell ?s ?k row < length (Matrix ?s)" using cell_unat(2) [OF ok r] .
    then have z: "Matrix ?s ! cell ?s ?k row = 0" by simp
    have "Matrix s' ! cell ?s ?k row = Matrix ?s ! cell ?s ?k row + ?x"
      using Count_loop_touched [OF ok c _ r] by simp
    with z have "Matrix s' ! cell ?s ?k row = ?x" by simp
    moreover have "cell s' ?k row = cell ?s ?k row" using fr by (simp add: cell_def)
    ultimately show "Matrix s' ! cell s' ?k row = ?x" by simp
  qed
  have d0: "0 < Depth s'" using d fr by (simp add: word_neq_0_conv)
  have "Query_loop s' ?k MaxUint64 0 = Some (if ?x < MaxUint64 then ?x else MaxUint64)"
    using Query_loop_const [OF ok' cells, of MaxUint64] d0 by simp
  also have "(if ?x < MaxUint64 then ?x else MaxUint64) = ?x"
    using le_MaxUint64 [of ?x] by auto
  finally have q: "Query_loop s' ?k MaxUint64 0 = Some ?x" .
  with Count_loop_Query_loop [OF ok c] have "v = ?x" by simp
  with c q show ?thesis
    by (simp add: fnvSketch_Count_def fnvSketch_Query_def)
qed

lemma query_loop_nonpos:
  "interval \<le> 0 \<Longrightarrow> query_loop rl key is latest m now interval tc td = Some (tc, td)"
  by (cases m) simp_all

lemma count_appends:
  assumes w: "widthOf DefaultEpsilon \<noteq> 0" and d: "depthOf DefaultDelta \<noteq> 0"
    and nw: "unat (widthOf DefaultEpsilon) * unat (depthOf DefaultDelta) < 2 ^ 64"
    and e0: "rlEpsilon rl = 0" and d0: "rlDelta rl = 0"
    and due: "buckets rl = [] \<or> (Interval rl \<le> now - Time (buckets rl ! (length (buckets rl) - 1))
                \<and> int (length (buckets rl)) < NumIntervals rl)"
  shows "\<exists>s'. rollingCounter_Count widthOf depthOf rl key delta now 0
               = Some (rl\<lparr>buckets := buckets rl @ [\<lparr>CountSketch = Some s', Time = now\<rparr>]\<rparr>, 0)
             \<and> fnvSketch_Query s' key = Some (word_of_int delta)"
proof -
  let ?new = "\<lparr>CountSketch = Some (NewSketch widthOf depthOf DefaultEpsilon DefaultDelta), Time = now\<rparr>"
  have ne: "DefaultEpsilon \<noteq> 0" "DefaultDelta \<noteq> 0"
    by (simp_all add: DefaultEpsilon_def DefaultDelta_def)
  have ns: "NewSketch widthOf depthOf DefaultEpsilon DefaultDelta
      = \<lparr>Epsilon = DefaultEpsilon, Delta = DefaultDelta, Width = widthOf DefaultEpsilon,
         Depth = depthOf DefaultDelta,
         Matrix = replicate (unat (widthOf DefaultEpsilon * depthOf DefaultDelta)) 0\<rparr>"
    using ne by (simp add: NewSketch_def Let_def)
  from fresh_Count [OF w d nw, of DefaultEpsilon DefaultDelta key delta] ns
  obtain s' where
    c: "fnvSketch_Count (NewSketch widthOf depthOf DefaultEpsilon DefaultDelta) key delta
          = Some (s', word_of_int delta)"
    and q: "fnvSketch_Query s' key = Some (word_of_int delta)"
    by auto
  have bc: "sketchWithTime_Count ?new key delta
          = Some (\<lparr>CountSketch = Some s', Time = now\<rparr>, word_of_int delta)"
    using c by (simp add: sketchWithTime_Count_def)
  have qz: "rollingCounter_query c' key now 0 l = Some (0, 0)" for c' l
    by (simp add: rollingCounter_query_def query_loop_nonpos Second_def)
  have "rollingCounter_count widthOf depthOf rl key delta now 0
               = Some (rl\<lparr>buckets := buckets rl @ [\<lparr>CountSketch = Some s', Time = now\<rparr>]\<rparr>, 0, 0)"
  proof (cases "buckets rl = []")
    case True
    then show ?thesis
      using e0 d0 bc qz by (simp add: rollingCounter_count_def getWithDefault_def Let_def)
  next
    case False
    with due have "Interval rl \<le> now - Time (buckets rl ! (length (buckets rl) - 1))"
      "int (length (buckets rl)) < NumIntervals rl" by simp_all
    with False show ?thesis
      using e0 d0 bc qz by (simp add: rollingCounter_count_def getWithDefault_def Let_def)
  qed
  with q show ?thesis by (auto simp: rollingCounter_Count_def rate_def)
qed


lemma goingBack_writes_buckets:
  assumes w: "widthOf DefaultEpsilon \<noteq> 0" and d: "depthOf DefaultDelta \<noteq> 0"
    and nw: "unat (widthOf DefaultEpsilon) * unat (depthOf DefaultDelta) < 2 ^ 64"
  shows "rlEpsilon c = 0 \<Longrightarrow> rlDelta c = 0 \<Longrightarrow> Interval c = Minute \<Longrightarrow>
     int (length (buckets c)) + int m \<le> NumIntervals c \<Longrightarrow>
     (buckets c \<noteq> [] \<longrightarrow> Time (buckets c ! (length (buckets c) - 1)) \<le> now) \<Longrightarrow>
     \<exists>c'. goingBack_writes widthOf depthOf key m i c now = Some (c', now + int m * Minute)
        \<and> Interval c' = Minute
        \<and> length (buckets c') = length (buckets c) + m
        \<and> (\<forall>j < length (buckets c). buckets c' ! j = buckets c ! j)
        \<and> (\<forall>j < m. Time (buckets c' ! (length (buckets c) + j)) = now + (int j + 1) * Minute
                   \<and> sketchWithTime_Query (buckets c' ! (length (buckets c) + j)) key
                       = Some (word_of_int (i + int j + 1)))"
proof (induction m arbitrary: i c now)
  case 0
  then show ?case by simp
next
  case (Suc m)
  let ?now = "now + Minute"
  have due: "buckets c = [] \<or> (Interval c \<le> ?now - Time (buckets c ! (length (buckets c) - 1))
                \<and> int (length (buckets c)) < NumIntervals c)"
    using Suc.prems by auto
  from count_appends [where widthOf = widthOf and depthOf = depthOf, OF w d nw Suc.prems(1,2) due, of key "i + 1"]
  obtain s' where
    cnt: "rollingCounter_Count widthOf depthOf c key (i + 1) ?now 0
               = Some (c\<lparr>buckets := buckets c @ [\<lparr>CountSketch = Some s', Time = ?now\<rparr>]\<rparr>, 0)"
    and q: "fnvSketch_Query s' key = Some (word_of_int (i + 1))"
    by blast
  let ?b = "\<lparr>CountSketch = Some s', Time = ?now\<rparr>"
  let ?c1 = "c\<lparr>buckets := buckets c @ [?b]\<rparr>"
  have p1: "rlEpsilon ?c1 = 0" "rlDelta ?c1 = 0" "Interval ?c1 = Minute"
    using Suc.prems by simp_all
  have p2: "int (length (buckets ?c1)) + int m \<le> NumIntervals ?c1"
    using Suc.prems(4) by simp
  have p3: "buckets ?c1 \<noteq> [] \<longrightarrow> Time (buckets ?c1 ! (length (buckets ?c1) - 1)) \<le> ?now"
    by simp
  from Suc.IH [OF p1 p2 p3, of "i + 1"]
  obtain c' where
    run: "goingBack_writes widthOf depthOf key m (i + 1) ?c1 ?now = Some (c', ?now + int m * Minute)"
    and iv: "Interval c' = Minute"
    and len: "length (buckets c') = length (buckets ?c1) + m"
    and pre: "\<forall>j < length (buckets ?c1). buckets c' ! j = buckets ?c1 ! j"
    and new: "\<forall>j < m. Time (buckets c' ! (length (buckets ?c1) + j)) = ?now + (int j + 1) * Minute
                   \<and> sketchWithTime_Query (buckets c' ! (length (buckets ?c1) + j)) key
                       = Some (word_of_int (i + 1 + int j + 1))"
    by blast
  have r: "goingBack_writes widthOf depthOf key (Suc m) i c now = Some (c', now + int (Suc m) * Minute)"
    using cnt run by (simp add: Let_def algebra_simps)
  have l: "length (buckets c') = length (buckets c) + Suc m" using len by simp
  have old: "\<forall>j < length (buckets c). buckets c' ! j = buckets c ! j"
    using pre by (simp add: nth_append)
  have here: "buckets c' ! length (buckets c) = ?b"
    using pre by (simp add: nth_append)
  have fresh: "\<forall>j < Suc m. Time (buckets c' ! (length (buckets c) + j)) = now + (int j + 1) * Minute
                   \<and> sketchWithTime_Query (buckets c' ! (length (buckets c) + j)) key
                       = Some (word_of_int (i + int j + 1))"
  proof (intro allI impI)
    fix j assume j: "j < Suc m"
    show "Time (buckets c' ! (length (buckets c) + j)) = now + (int j + 1) * Minute
                   \<and> sketchWithTime_Query (buckets c' ! (length (buckets c) + j)) key
                       = Some (word_of_int (i + int j + 1))"
    proof (cases j)
      case 0
      with here q show ?thesis by (simp add: sketchWithTime_Query_def)
    next
      case (Suc j')
      with j have "j' < m" by simp
      with new have "Time (buckets c' ! (length (buckets ?c1) + j')) = ?now + (int j' + 1) * Minute
                   \<and> sketchWithTime_Query (buckets c' ! (length (buckets ?c1) + j')) key
                       = Some (word_of_int (i + 1 + int j' + 1))" by blast
      with Suc show ?thesis by (simp add: algebra_simps)
    qed
  qed
  from r iv l old fresh show ?case by blast
qed

lemma query_loop_numeral:
  "query_loop rl key is latest (numeral k) now interval tc td =
     (if interval > 0 then
        (case query_body rl key is latest (pred_numeral k) now of
           None \<Rightarrow> None
         | Some Skip \<Rightarrow> query_loop rl key is latest (pred_numeral k) now interval tc td
         | Some Break \<Rightarrow> Some (tc, td)
         | Some (Add n d) \<Rightarrow>
             query_loop rl key is latest (pred_numeral k) (Time (buckets rl ! pred_numeral k))
               (interval - (now - Time (buckets rl ! pred_numeral k))) (tc + n) (td + d))
      else Some (tc, td))"
  by (simp add: numeral_eq_Suc)

text \<open>
  C2.  Whenever the sizing of new sketches gives a positive width and depth whose product
  fits 64 bits, the ten writes of 1, ..., 10 a minute apart into a counter of ten
  one-minute buckets open one bucket each, and the rate walk with the cursor four
  minutes before the last write returns the count 7 over 90 seconds: the buckets at or
  after the cursor are skipped, the bucket holding 5 adds 5 over a minute and the bucket
  holding 4 adds 4 * (30 s / 60 s) = 2 over the remaining 30 seconds.
\<close>

theorem going_back_in_time:
  assumes w: "widthOf DefaultEpsilon \<noteq> 0" and d: "depthOf DefaultDelta \<noteq> 0"
    and nw: "unat (widthOf DefaultEpsilon) * unat (depthOf DefaultDelta) < 2 ^ 64"
  shows "goingBackInTime widthOf depthOf key T = Some (7, 90 * Second)"
proof -
  let ?c = "RollingCounter 0 0 (60 * Second) 10"
  have "\<exists>c'. goingBack_writes widthOf depthOf key 10 0 ?c T = Some (c', T + int 10 * Minute)
        \<and> Interval c' = Minute
        \<and> length (buckets c') = length (buckets ?c) + 10
        \<and> (\<forall>j < length (buckets ?c). buckets c' ! j = buckets ?c ! j)
        \<and> (\<forall>j < 10. Time (buckets c' ! (length (buckets ?c) + j)) = T + (int j + 1) * Minute
                   \<and> sketchWithTime_Query (buckets c' ! (length (buckets ?c) + j)) key
                       = Some (word_of_int (0 + int j + 1)))"
    by (rule goingBack_writes_buckets [where widthOf = widthOf and depthOf = depthOf, OF w d nw])
      (simp_all add: RollingCounter_def Minute_def)
  then obtain c' where
    run: "goingBack_writes widthOf depthOf key 10 0 ?c T = Some (c', T + 10 * Minute)"
    and iv: "Interval c' = Minute"
    and len: "length (buckets c') = 10"
    and bs: "\<forall>j < 10. Time (buckets c' ! j) = T + (int j + 1) * Minute
                   \<and> sketchWithTime_Query (buckets c' ! j) key = Some (word_of_int (int j + 1))"
    by (auto simp: RollingCounter_def)
  have t: "Time (buckets c' ! 9) = T + 10 * Minute" "Time (buckets c' ! 8) = T + 9 * Minute"
    "Time (buckets c' ! 7) = T + 8 * Minute" "Time (buckets c' ! 6) = T + 7 * Minute"
    "Time (buckets c' ! 5) = T + 6 * Minute" "Time (buckets c' ! 4) = T + 5 * Minute"
    "Time (buckets c' ! 3) = T + 4 * Minute"
    using bs by simp_all
  have q: "sketchWithTime_Query (buckets c' ! 4) key = Some 5"
    "sketchWithTime_Query (buckets c' ! 3) key = Some 4"
    using bs by simp_all
  have walk: "rollingCounter_query c' key (T + 10 * Minute - 4 * Minute) (90 * Second) 0
                = Some (7, 90 * Second)"
    unfolding rollingCounter_query_def len
    by (simp add: query_loop_numeral query_body_def Let_def t q iv len Minute_def Second_def)
  from run walk show ?thesis by (simp add: goingBackInTime_def)
qed

theorem going_back_in_time_witness:
  "(2719 :: uint64) \<noteq> 0 \<and> (5 :: uint64) \<noteq> 0 \<and> unat (2719 :: uint64) * unat (5 :: uint64) < 2 ^ 64
   \<and> goingBackInTime (\<lambda>e. 2719) (\<lambda>d. 5) [0x6b, 0x65, 0x79] 0 = Some (7, 90000000000)"
  using going_back_in_time [of "\<lambda>e. 2719" "\<lambda>d. 5" "[0x6b, 0x65, 0x79]" 0]
  by (simp add: Second_def)

section \<open>Claims about the buckets, the encoding and the constructors\<close>

lemma count_buckets_length:
  assumes "rollingCounter_count widthOf depthOf rl key delta now interval = Some (rl', r)"
  shows "NumIntervals rl' = NumIntervals rl"
    and "length (buckets rl') =
          (if length (buckets rl) = 0 then 1
           else if now - Time (buckets rl ! (length (buckets rl) - 1)) \<ge> Interval rl
                   \<and> int (length (buckets rl)) < NumIntervals rl
                then length (buckets rl) + 1
                else length (buckets rl))"
  using assms
  by (auto simp: rollingCounter_count_def Let_def split: option.splits if_splits)

lemma apply_op_cap:
  assumes "apply_op widthOf depthOf rl x = Some rl'"
    and "1 \<le> NumIntervals rl" and "int (length (buckets rl)) \<le> NumIntervals rl"
  shows "NumIntervals rl' = NumIntervals rl \<and> int (length (buckets rl')) \<le> NumIntervals rl"
proof (cases x)
  case (CountOp key delta now interval)
  with assms(1) obtain r where
    c: "rollingCounter_count widthOf depthOf rl key delta now interval = Some (rl', r)"
    by (auto simp: rollingCounter_Count_def split: option.splits)
  from count_buckets_length [OF c] assms(2,3) show ?thesis
    by (auto split: if_splits)
next
  case (QueryOp key now interval)
  with assms show ?thesis by (auto split: option.splits)
qed

lemma apply_ops_cap:
  "apply_ops widthOf depthOf rl ops = Some rl' \<Longrightarrow> 1 \<le> NumIntervals rl \<Longrightarrow>
     int (length (buckets rl)) \<le> NumIntervals rl \<Longrightarrow>
     NumIntervals rl' = NumIntervals rl \<and> int (length (buckets rl')) \<le> NumIntervals rl"
proof (induction ops arbitrary: rl)
  case Nil
  then show ?case by simp
next
  case (Cons x xs)
  from Cons.prems(1) obtain rl1 where s: "apply_op widthOf depthOf rl x = Some rl1"
    and r: "apply_ops widthOf depthOf rl1 xs = Some rl'"
    by (auto split: option.splits)
  from apply_op_cap [OF s Cons.prems(2,3)]
  have "NumIntervals rl1 = NumIntervals rl" "int (length (buckets rl1)) \<le> NumIntervals rl" by simp_all
  with Cons.IH [OF r] Cons.prems(2) show ?case by simp
qed

lemma sketchWithTime_Count_ok:
  assumes "bucket_ok b"
  shows "\<exists>b' v. sketchWithTime_Count b key delta = Some (b', v) \<and> bucket_ok b'"
proof (cases "CountSketch b")
  case None
  with assms show ?thesis by (simp add: sketchWithTime_Count_def)
next
  case (Some s)
  with assms have ok: "sketch_ok s" by (simp add: bucket_ok_def)
  from Count_loop_total [OF ok, of "multihash key" delta MaxUint64 0]
  obtain s' v where c: "Count_loop s (multihash key) delta MaxUint64 0 = Some (s', v)" by blast
  from Count_loop_frame [OF ok c] ok have "sketch_ok s'" by (simp add: sketch_ok_def)
  with c Some show ?thesis
    by (simp add: sketchWithTime_Count_def fnvSketch_Count_def bucket_ok_def)
qed

lemma NewSketch_ok:
  assumes "widthOf (getWithDefault epsilon DefaultEpsilon) \<noteq> 0"
    and "unat (widthOf (getWithDefault epsilon DefaultEpsilon))
          * unat (depthOf (getWithDefault delta DefaultDelta)) < 2 ^ 64"
  shows "sketch_ok (NewSketch widthOf depthOf (getWithDefault epsilon DefaultEpsilon)
                      (getWithDefault delta DefaultDelta))"
proof -
  have e: "getWithDefault epsilon DefaultEpsilon \<noteq> 0" "getWithDefault delta DefaultDelta \<noteq> 0"
    by (simp_all add: getWithDefault_def DefaultEpsilon_def DefaultDelta_def)
  from assms(2) have "unat (widthOf (getWithDefault epsilon DefaultEpsilon)
                            * depthOf (getWithDefault delta DefaultDelta))
        = unat (widthOf (getWithDefault epsilon DefaultEpsilon))
          * unat (depthOf (getWithDefault delta DefaultDelta))"
    by (simp add: unat_word_ariths)
  with assms e show ?thesis by (simp add: NewSketch_def sketch_ok_def Let_def)
qed

lemma list_all_last_update:
  "list_all P bs \<Longrightarrow> P b \<Longrightarrow> list_all P (bs[n := b])"
  by (auto simp: list_all_iff dest: set_update_subset_insert [THEN subsetD])

lemma count_total:
  assumes ok: "buckets_ok rl"
    and w: "widthOf (getWithDefault (rlEpsilon rl) DefaultEpsilon) \<noteq> 0"
    and nw: "unat (widthOf (getWithDefault (rlEpsilon rl) DefaultEpsilon))
          * unat (depthOf (getWithDefault (rlDelta rl) DefaultDelta)) < 2 ^ 64"
  shows "\<exists>rl' r. rollingCounter_count widthOf depthOf rl key delta now interval = Some (rl', r)
           \<and> buckets_ok rl' \<and> rlEpsilon rl' = rlEpsilon rl \<and> rlDelta rl' = rlDelta rl"
proof -
  define new where "new = \<lparr>CountSketch = Some (NewSketch widthOf depthOf
      (getWithDefault (rlEpsilon rl) DefaultEpsilon) (getWithDefault (rlDelta rl) DefaultDelta)),
      Time = now\<rparr>"
  define bs where "bs =
     (if length (buckets rl) = 0 then [new]
      else if now - Time (buckets rl ! (length (buckets rl) - 1)) \<ge> Interval rl then
        (if int (length (buckets rl)) \<ge> NumIntervals rl then
           (drop 1 (buckets rl) @ drop (length (buckets rl) - 1) (buckets rl))
             [length (buckets rl) - 1 := new]
         else buckets rl @ [new])
      else buckets rl)"
  have newok: "bucket_ok new"
    using NewSketch_ok [where widthOf = widthOf and depthOf = depthOf, OF w nw]
    by (simp add: bucket_ok_def new_def)
  from ok have all0: "list_all bucket_ok (buckets rl)" by (simp add: buckets_ok_def)
  have sh: "list_all bucket_ok (drop 1 (buckets rl) @ drop (length (buckets rl) - 1) (buckets rl))"
    using all0 by (auto simp: list_all_iff dest: in_set_dropD)
  have shl: "length (drop 1 (buckets rl) @ drop (length (buckets rl) - 1) (buckets rl))
              = length (buckets rl)" if "buckets rl \<noteq> []"
    using that by (cases "buckets rl") simp_all
  have allbs: "list_all bucket_ok bs"
    unfolding bs_def
    using all0 newok list_all_last_update [OF sh newok] by simp
  have ne: "bs \<noteq> []"
    unfolding bs_def using shl by auto
  then have "length bs - 1 < length bs" by (cases bs) simp_all
  with allbs have "bucket_ok (bs ! (length bs - 1))" by (simp only: list_all_length)
  from sketchWithTime_Count_ok [OF this, of key delta]
  obtain b latest where c: "sketchWithTime_Count (bs ! (length bs - 1)) key delta = Some (b, latest)"
    and bok: "bucket_ok b" by blast
  define rl' where "rl' = rl\<lparr>buckets := bs[length bs - 1 := b]\<rparr>"
  have ok': "buckets_ok rl'"
    using list_all_last_update [OF allbs bok] by (simp add: buckets_ok_def rl'_def)
  from rollingCounter_query_total [OF ok', of key now interval latest]
  obtain r where q: "rollingCounter_query rl' key now interval latest = Some r" by blast
  have "rollingCounter_count widthOf depthOf rl key delta now interval = Some (rl', r)"
    unfolding rollingCounter_count_def Let_def
    using c q unfolding rl'_def bs_def new_def by simp
  with ok' show ?thesis by (simp add: rl'_def)
qed

lemma apply_ops_total:
  "buckets_ok rl \<Longrightarrow> widthOf (getWithDefault (rlEpsilon rl) DefaultEpsilon) \<noteq> 0 \<Longrightarrow>
     unat (widthOf (getWithDefault (rlEpsilon rl) DefaultEpsilon))
          * unat (depthOf (getWithDefault (rlDelta rl) DefaultDelta)) < 2 ^ 64 \<Longrightarrow>
     \<exists>rl'. apply_ops widthOf depthOf rl ops = Some rl'"
proof (induction ops arbitrary: rl)
  case Nil
  then show ?case by simp
next
  case (Cons x xs)
  show ?case
  proof (cases x)
    case (CountOp key delta now interval)
    from count_total [where widthOf = widthOf and depthOf = depthOf, OF Cons.prems, of key delta now interval]
    obtain rl1 r where c: "rollingCounter_count widthOf depthOf rl key delta now interval = Some (rl1, r)"
      and p: "buckets_ok rl1" "rlEpsilon rl1 = rlEpsilon rl" "rlDelta rl1 = rlDelta rl" by blast
    from Cons.IH [of rl1] p Cons.prems obtain rl' where "apply_ops widthOf depthOf rl1 xs = Some rl'"
      by auto
    with c CountOp show ?thesis by (simp add: rollingCounter_Count_def)
  next
    case (QueryOp key now interval)
    from rollingCounter_query_total [OF Cons.prems(1), of key now interval 0]
    obtain r where "rollingCounter_query rl key now interval 0 = Some r" by blast
    then have "\<exists>v. rollingCounter_Query rl key now interval = Some v"
      by (simp add: rollingCounter_Query_def)
    with Cons.IH [OF Cons.prems] QueryOp show ?thesis by auto
  qed
qed

lemma sketchWithTime_Count_Time:
  "sketchWithTime_Count b key delta = Some (b', v) \<Longrightarrow> Time b' = Time b"
  by (auto simp: sketchWithTime_Count_def split: option.splits)

lemma snoc_at_length:
  "length xs = n \<Longrightarrow> (xs @ [y])[n := z] = xs @ [z]"
  "length xs = n \<Longrightarrow> (xs @ [y]) ! n = y"
  by auto

lemma shift_buckets:
  assumes ne: "bs \<noteq> []"
  shows "(drop 1 bs @ drop (length bs - 1) bs)[length bs - 1 := new] = tl bs @ [new]"
proof -
  from ne have l: "length (tl bs) = length bs - 1" by simp
  from ne have "drop (length bs - 1) bs = [last bs]"
    by (metis append_butlast_last_id append_eq_conv_conj length_butlast)
  then have "drop 1 bs @ drop (length bs - 1) bs = tl bs @ [last bs]"
    by (simp add: drop_Suc)
  then show ?thesis using snoc_at_length(1) [OF l] by simp
qed

lemma count_buckets:
  assumes "rollingCounter_count widthOf depthOf rl key delta now interval = Some (rl', r)"
  shows "\<exists>b latest.
          sketchWithTime_Count
            (if buckets rl = [] \<or> Interval rl \<le> now - Time (buckets rl ! (length (buckets rl) - 1))
             then \<lparr>CountSketch = Some (NewSketch widthOf depthOf
                      (getWithDefault (rlEpsilon rl) DefaultEpsilon)
                      (getWithDefault (rlDelta rl) DefaultDelta)), Time = now\<rparr>
             else buckets rl ! (length (buckets rl) - 1)) key delta = Some (b, latest)
          \<and> rl' = rl\<lparr>buckets :=
                (if buckets rl = [] then [b]
                 else if Interval rl \<le> now - Time (buckets rl ! (length (buckets rl) - 1)) then
                   (if NumIntervals rl \<le> int (length (buckets rl)) then tl (buckets rl) @ [b]
                    else buckets rl @ [b])
                 else butlast (buckets rl) @ [b])\<rparr>
          \<and> Time b =
            (if buckets rl = [] \<or> Interval rl \<le> now - Time (buckets rl ! (length (buckets rl) - 1))
             then now else Time (buckets rl ! (length (buckets rl) - 1)))"
proof -
  define new where "new = \<lparr>CountSketch = Some (NewSketch widthOf depthOf
      (getWithDefault (rlEpsilon rl) DefaultEpsilon) (getWithDefault (rlDelta rl) DefaultDelta)),
      Time = now\<rparr>"
  define bs where "bs =
     (if length (buckets rl) = 0 then [new]
      else if now - Time (buckets rl ! (length (buckets rl) - 1)) \<ge> Interval rl then
        (if int (length (buckets rl)) \<ge> NumIntervals rl then
           (drop 1 (buckets rl) @ drop (length (buckets rl) - 1) (buckets rl))
             [length (buckets rl) - 1 := new]
         else buckets rl @ [new])
      else buckets rl)"
  from assms obtain b latest where
    c: "sketchWithTime_Count (bs ! (length bs - 1)) key delta = Some (b, latest)"
    and r: "rl' = rl\<lparr>buckets := bs[length bs - 1 := b]\<rparr>"
    unfolding rollingCounter_count_def Let_def bs_def new_def
    by (auto split: option.splits)
  note tb = sketchWithTime_Count_Time [OF c]
  have tn: "Time new = now" by (simp add: new_def)
  show ?thesis
  proof (cases "buckets rl = []")
    case True
    then have "bs = [new]" by (simp add: bs_def)
    with c r tb tn True show ?thesis unfolding new_def [symmetric] by auto
  next
    case ne: False
    show ?thesis
    proof (cases "Interval rl \<le> now - Time (buckets rl ! (length (buckets rl) - 1))")
      case due: True
      show ?thesis
      proof (cases "NumIntervals rl \<le> int (length (buckets rl))")
        case True
        with ne due have e: "bs = tl (buckets rl) @ [new]"
          by (simp add: bs_def shift_buckets del: One_nat_def)
        from ne have l: "length (tl (buckets rl)) = length bs - 1" by (simp add: e)
        have "bs[length bs - 1 := b] = tl (buckets rl) @ [b]" "bs ! (length bs - 1) = new"
          unfolding e using snoc_at_length [OF l [unfolded e]] by simp_all
        with c r tb tn ne due True show ?thesis unfolding new_def [symmetric] by auto
      next
        case False
        with ne due have e: "bs = buckets rl @ [new]" by (simp add: bs_def)
        have "bs[length bs - 1 := b] = buckets rl @ [b]" "bs ! (length bs - 1) = new"
          unfolding e by simp_all
        with c r tb tn ne due False show ?thesis unfolding new_def [symmetric] by auto
      qed
    next
      case False
      with ne have e: "bs = buckets rl" by (simp add: bs_def)
      from ne have "(buckets rl)[length (buckets rl) - 1 := b] = butlast (buckets rl) @ [b]"
        by (metis append_butlast_last_id length_butlast list_update_length)
      with c r tb ne False e show ?thesis by auto
    qed
  qed
qed

text \<open>
  C5.  A rolling counter constructed with \<open>numIntervals \<ge> 1\<close> never holds more than
  \<open>numIntervals\<close> buckets after any run of \<open>Count\<close> and \<open>Query\<close>, and the run does not
  panic when the sizing of new sketches gives a positive width and a matrix size that
  fits 64 bits.  \<open>count\<close> changes nothing but the bucket list.  It counts into a new
  bucket opened at \<open>now\<close> when the list is empty or rotation is due, and into the newest
  bucket otherwise; the new bucket is the only bucket of an empty list, it replaces the
  oldest bucket by a shift when rotation is due with \<open>NumIntervals\<close> or more buckets held,
  and it is appended when rotation is due below that.  So the list grows by one only when
  it is empty or when rotation is due below the cap.  \<open>Query\<close> leaves the counter as it
  is.
\<close>

theorem bucket_cap:
  assumes "1 \<le> num"
  shows "(\<forall>rl. apply_ops widthOf depthOf (RollingCounter epsilon delta interval num) ops = Some rl \<longrightarrow>
            int (length (buckets rl)) \<le> num \<and> NumIntervals rl = num)
     \<and> (widthOf (getWithDefault epsilon DefaultEpsilon) \<noteq> 0
          \<and> unat (widthOf (getWithDefault epsilon DefaultEpsilon))
              * unat (depthOf (getWithDefault delta DefaultDelta)) < 2 ^ 64 \<longrightarrow>
          (\<exists>rl. apply_ops widthOf depthOf (RollingCounter epsilon delta interval num) ops = Some rl))
     \<and> (\<forall>c key n now iv c' r. rollingCounter_count widthOf depthOf c key n now iv = Some (c', r) \<longrightarrow>
           length (buckets c') =
             (if length (buckets c) = 0 then 1
              else if now - Time (buckets c ! (length (buckets c) - 1)) \<ge> Interval c
                      \<and> int (length (buckets c)) < NumIntervals c
                   then length (buckets c) + 1
                   else length (buckets c)))
     \<and> (\<forall>c key n now iv c' r. rollingCounter_count widthOf depthOf c key n now iv = Some (c', r) \<longrightarrow>
           (\<exists>b latest.
              sketchWithTime_Count
                (if buckets c = [] \<or> Interval c \<le> now - Time (buckets c ! (length (buckets c) - 1))
                 then \<lparr>CountSketch = Some (NewSketch widthOf depthOf
                          (getWithDefault (rlEpsilon c) DefaultEpsilon)
                          (getWithDefault (rlDelta c) DefaultDelta)), Time = now\<rparr>
                 else buckets c ! (length (buckets c) - 1)) key n = Some (b, latest)
              \<and> c' = c\<lparr>buckets :=
                    (if buckets c = [] then [b]
                     else if Interval c \<le> now - Time (buckets c ! (length (buckets c) - 1)) then
                       (if NumIntervals c \<le> int (length (buckets c)) then tl (buckets c) @ [b]
                        else buckets c @ [b])
                     else butlast (buckets c) @ [b])\<rparr>
              \<and> Time b =
                (if buckets c = [] \<or> Interval c \<le> now - Time (buckets c ! (length (buckets c) - 1))
                 then now else Time (buckets c ! (length (buckets c) - 1)))))
     \<and> (\<forall>c key now iv. apply_op widthOf depthOf c (QueryOp key now iv) \<in> {None, Some c})"
proof -
  have a: "\<forall>rl. apply_ops widthOf depthOf (RollingCounter epsilon delta interval num) ops = Some rl \<longrightarrow>
            int (length (buckets rl)) \<le> num \<and> NumIntervals rl = num"
  proof (intro allI impI)
    fix rl
    assume "apply_ops widthOf depthOf (RollingCounter epsilon delta interval num) ops = Some rl"
    from apply_ops_cap [OF this] assms
    show "int (length (buckets rl)) \<le> num \<and> NumIntervals rl = num"
      by (simp add: RollingCounter_def)
  qed
  have b: "widthOf (getWithDefault epsilon DefaultEpsilon) \<noteq> 0
          \<and> unat (widthOf (getWithDefault epsilon DefaultEpsilon))
              * unat (depthOf (getWithDefault delta DefaultDelta)) < 2 ^ 64 \<longrightarrow>
          (\<exists>rl. apply_ops widthOf depthOf (RollingCounter epsilon delta interval num) ops = Some rl)"
  proof
    assume "widthOf (getWithDefault epsilon DefaultEpsilon) \<noteq> 0
          \<and> unat (widthOf (getWithDefault epsilon DefaultEpsilon))
              * unat (depthOf (getWithDefault delta DefaultDelta)) < 2 ^ 64"
    then show "\<exists>rl. apply_ops widthOf depthOf (RollingCounter epsilon delta interval num) ops = Some rl"
      by (intro apply_ops_total) (simp_all add: RollingCounter_def buckets_ok_def)
  qed
  have c: "\<forall>c key n now iv c' r. rollingCounter_count widthOf depthOf c key n now iv = Some (c', r) \<longrightarrow>
           length (buckets c') =
             (if length (buckets c) = 0 then 1
              else if now - Time (buckets c ! (length (buckets c) - 1)) \<ge> Interval c
                      \<and> int (length (buckets c)) < NumIntervals c
                   then length (buckets c) + 1
                   else length (buckets c))"
    using count_buckets_length(2) by blast
  have d: "\<forall>c key n now iv c' r. rollingCounter_count widthOf depthOf c key n now iv = Some (c', r) \<longrightarrow>
           (\<exists>b latest.
              sketchWithTime_Count
                (if buckets c = [] \<or> Interval c \<le> now - Time (buckets c ! (length (buckets c) - 1))
                 then \<lparr>CountSketch = Some (NewSketch widthOf depthOf
                          (getWithDefault (rlEpsilon c) DefaultEpsilon)
                          (getWithDefault (rlDelta c) DefaultDelta)), Time = now\<rparr>
                 else buckets c ! (length (buckets c) - 1)) key n = Some (b, latest)
              \<and> c' = c\<lparr>buckets :=
                    (if buckets c = [] then [b]
                     else if Interval c \<le> now - Time (buckets c ! (length (buckets c) - 1)) then
                       (if NumIntervals c \<le> int (length (buckets c)) then tl (buckets c) @ [b]
                        else buckets c @ [b])
                     else butlast (buckets c) @ [b])\<rparr>
              \<and> Time b =
                (if buckets c = [] \<or> Interval c \<le> now - Time (buckets c ! (length (buckets c) - 1))
                 then now else Time (buckets c ! (length (buckets c) - 1))))"
    by (intro allI impI) (rule count_buckets)
  have e: "\<forall>c key now iv. apply_op widthOf depthOf c (QueryOp key now iv) \<in> {None, Some c}"
    by (simp split: option.splits)
  show ?thesis
    by (rule conjI [OF a conjI [OF b conjI [OF c conjI [OF d e]]]])
qed

theorem bucket_cap_witness:
  "(1::int) \<le> 2
   \<and> apply_ops (\<lambda>_. 1) (\<lambda>_. 1) (RollingCounter 0 0 60000000000 2)
        [CountOp [] 1 0 0, CountOp [] 2 60000000000 0, QueryOp [] 90000000000 90000000000,
         CountOp [] 3 120000000000 60000000000]
       = Some \<lparr>rlEpsilon = 0, rlDelta = 0, Interval = 60000000000, NumIntervals = 2,
               buckets = [\<lparr>CountSketch = Some \<lparr>Epsilon = 999 / 1000, Delta = 99 / 100, Width = 1,
                                               Depth = 1, Matrix = [2]\<rparr>,
                           Time = 60000000000\<rparr>,
                          \<lparr>CountSketch = Some \<lparr>Epsilon = 999 / 1000, Delta = 99 / 100, Width = 1,
                                               Depth = 1, Matrix = [3]\<rparr>,
                           Time = 120000000000\<rparr>]\<rparr>
   \<and> int (length (buckets \<lparr>rlEpsilon = 0, rlDelta = 0, Interval = 60000000000, NumIntervals = 2,
               buckets = [\<lparr>CountSketch = Some \<lparr>Epsilon = 999 / 1000, Delta = 99 / 100, Width = 1,
                                               Depth = 1, Matrix = [2]\<rparr>,
                           Time = 60000000000\<rparr>,
                          \<lparr>CountSketch = Some \<lparr>Epsilon = 999 / 1000, Delta = 99 / 100, Width = 1,
                                               Depth = 1, Matrix = [3]\<rparr>,
                           Time = 120000000000\<rparr>]\<rparr>)) \<le> 2"
proof -
  have run: "apply_ops (\<lambda>_. 1) (\<lambda>_. 1) (RollingCounter 0 0 60000000000 2)
        [CountOp [] 1 0 0, CountOp [] 2 60000000000 0, QueryOp [] 90000000000 90000000000,
         CountOp [] 3 120000000000 60000000000]
       = Some \<lparr>rlEpsilon = 0, rlDelta = 0, Interval = 60000000000, NumIntervals = 2,
               buckets = [\<lparr>CountSketch = Some \<lparr>Epsilon = 999 / 1000, Delta = 99 / 100, Width = 1,
                                               Depth = 1, Matrix = [2]\<rparr>,
                           Time = 60000000000\<rparr>,
                          \<lparr>CountSketch = Some \<lparr>Epsilon = 999 / 1000, Delta = 99 / 100, Width = 1,
                                               Depth = 1, Matrix = [3]\<rparr>,
                           Time = 120000000000\<rparr>]\<rparr>"
    by (simp add: run_simps)
  from bucket_cap [of 2 "\<lambda>_. 1" "\<lambda>_. 1" 0 0 60000000000] run show ?thesis by simp
qed

text \<open>
  C8.  Whatever \<open>gob\<close> does on the wire, as long as each of its decoders reads back
  what its encoder wrote in front of any rest of the stream: decoding the encoding of a
  counter into any counter succeeds and restores epsilon, delta, interval, numIntervals
  and the buckets, so every \<open>Query\<close> at the same instant returns the same value.
\<close>

theorem gob_roundtrip:
  assumes fl: "\<And>v bs rest. encodeFloat g v = Inr bs \<Longrightarrow> decodeFloat g (bs @ rest) = Inr (v, rest)"
    and it: "\<And>v bs rest. encodeInt g v = Inr bs \<Longrightarrow> decodeInt g (bs @ rest) = Inr (v, rest)"
    and bk: "\<And>v bs rest. encodeBuckets g v = Inr bs \<Longrightarrow> decodeBuckets g (bs @ rest) = Inr (v, rest)"
    and enc: "GobEncode g rl = Inr data"
  shows "\<exists>rl'. GobDecode g rl0 data = (rl', None)
           \<and> rlEpsilon rl' = rlEpsilon rl \<and> rlDelta rl' = rlDelta rl
           \<and> Interval rl' = Interval rl \<and> NumIntervals rl' = NumIntervals rl
           \<and> buckets rl' = buckets rl
           \<and> (\<forall>key interval now.
                 rollingCounter_Query rl' key now interval = rollingCounter_Query rl key now interval)"
proof -
  from enc obtain b1 b2 b3 b4 b5 where
    e1: "encodeFloat g (rlEpsilon rl) = Inr b1" and e2: "encodeFloat g (rlDelta rl) = Inr b2"
    and e3: "encodeInt g (Interval rl) = Inr b3" and e4: "encodeInt g (NumIntervals rl) = Inr b4"
    and e5: "encodeBuckets g (buckets rl) = Inr b5" and d: "data = b1 @ b2 @ b3 @ b4 @ b5"
    by (auto simp: GobEncode_def split: sum.splits)
  have d1: "decodeFloat g data = Inr (rlEpsilon rl, b2 @ b3 @ b4 @ b5)"
    using fl [OF e1] d by simp
  have d2: "decodeFloat g (b2 @ b3 @ b4 @ b5) = Inr (rlDelta rl, b3 @ b4 @ b5)"
    using fl [OF e2] by simp
  have d3: "decodeInt g (b3 @ b4 @ b5) = Inr (Interval rl, b4 @ b5)"
    using it [OF e3] by simp
  have d4: "decodeInt g (b4 @ b5) = Inr (NumIntervals rl, b5)"
    using it [OF e4] by simp
  have d5: "decodeBuckets g b5 = Inr (buckets rl, [])"
    using bk [OF e5, of "[]"] by simp
  have "GobDecode g rl0 data = (rl, None)"
    by (simp add: GobDecode_def d1 d2 d3 d4 d5)
  then show ?thesis by simp
qed

theorem gob_roundtrip_witness:
  "GobEncode valueGob \<lparr>rlEpsilon = 0, rlDelta = 0, Interval = 300000000000, NumIntervals = 12,
               buckets = [\<lparr>CountSketch = Some \<lparr>Epsilon = 999 / 1000, Delta = 99 / 100, Width = 3,
                                               Depth = 1, Matrix = [0, 7, 0]\<rparr>,
                           Time = 5\<rparr>]\<rparr>
       = Inr [GobFloat 0, GobFloat 0, GobInt 300000000000, GobInt 12,
              GobBuckets [\<lparr>CountSketch = Some \<lparr>Epsilon = 999 / 1000, Delta = 99 / 100, Width = 3,
                                               Depth = 1, Matrix = [0, 7, 0]\<rparr>,
                           Time = 5\<rparr>]]
   \<and> (\<exists>rl'. GobDecode valueGob (RollingCounter 0 0 0 0)
               [GobFloat 0, GobFloat 0, GobInt 300000000000, GobInt 12,
                GobBuckets [\<lparr>CountSketch = Some \<lparr>Epsilon = 999 / 1000, Delta = 99 / 100, Width = 3,
                                               Depth = 1, Matrix = [0, 7, 0]\<rparr>,
                           Time = 5\<rparr>]] = (rl', None)
        \<and> buckets rl' = [\<lparr>CountSketch = Some \<lparr>Epsilon = 999 / 1000, Delta = 99 / 100, Width = 3,
                                               Depth = 1, Matrix = [0, 7, 0]\<rparr>,
                           Time = 5\<rparr>]
        \<and> NumIntervals rl' = 12)"
proof -
  have fl: "encodeFloat valueGob v = Inr bs \<Longrightarrow> decodeFloat valueGob (bs @ rest) = Inr (v, rest)"
    for v bs rest by (auto simp: valueGob_def)
  have it: "encodeInt valueGob v = Inr bs \<Longrightarrow> decodeInt valueGob (bs @ rest) = Inr (v, rest)"
    for v bs rest by (auto simp: valueGob_def)
  have bk: "encodeBuckets valueGob v = Inr bs \<Longrightarrow> decodeBuckets valueGob (bs @ rest) = Inr (v, rest)"
    for v bs rest by (auto simp: valueGob_def)
  have enc: "GobEncode valueGob \<lparr>rlEpsilon = 0, rlDelta = 0, Interval = 300000000000, NumIntervals = 12,
               buckets = [\<lparr>CountSketch = Some \<lparr>Epsilon = 999 / 1000, Delta = 99 / 100, Width = 3,
                                               Depth = 1, Matrix = [0, 7, 0]\<rparr>,
                           Time = 5\<rparr>]\<rparr>
       = Inr [GobFloat 0, GobFloat 0, GobInt 300000000000, GobInt 12,
              GobBuckets [\<lparr>CountSketch = Some \<lparr>Epsilon = 999 / 1000, Delta = 99 / 100, Width = 3,
                                               Depth = 1, Matrix = [0, 7, 0]\<rparr>,
                           Time = 5\<rparr>]]"
    by (simp add: GobEncode_def valueGob_def)
  from gob_roundtrip [of valueGob, OF fl it bk enc, of "RollingCounter 0 0 0 0"] enc
  show ?thesis by auto
qed

text \<open>
  C9 fails on the code: neither constructor has an error result.  A rolling counter
  with 0 or -3 intervals, a rollup with a single duration and a rollup with descending
  durations are all returned as counters.
\<close>

theorem constructors_return_counters:
  "RollingCounter 0 0 60000000000 0
     = \<lparr>rlEpsilon = 0, rlDelta = 0, Interval = 60000000000, NumIntervals = 0, buckets = []\<rparr>
   \<and> RollingCounter 0 0 60000000000 (- 3)
     = \<lparr>rlEpsilon = 0, rlDelta = 0, Interval = 60000000000, NumIntervals = - 3, buckets = []\<rparr>
   \<and> RollupCounter 0 0 [600000000000] = Some \<lparr>Levels = []\<rparr>
   \<and> RollupCounter 0 0 [3600000000000, 600000000000]
     = Some \<lparr>Levels = [\<lparr>rlEpsilon = 0, rlDelta = 0, Interval = 3600000000000, NumIntervals = 1,
                         buckets = []\<rparr>]\<rparr>"
  by (simp add: RollingCounter_def RollupCounter_def signed_divide_int_def signed_modulo_int_def)

lemma RollupCounter_loop_levels:
  "\<forall>x \<in> set (butlast durations). x \<noteq> 0 \<Longrightarrow>
     \<exists>levels. RollupCounter_loop epsilon delta durations = Some levels
        \<and> length levels = length durations - 1
        \<and> (\<forall>i < length levels.
              levels ! i = \<lparr>rlEpsilon = epsilon, rlDelta = delta, Interval = durations ! i,
                  NumIntervals = (durations ! (i + 1)) sdiv (durations ! i)
                     + (if (durations ! (i + 1)) smod (durations ! i) > 0 then 1 else 0),
                  buckets = []\<rparr>)"
proof (induction epsilon delta durations rule: RollupCounter_loop.induct)
  case (1 epsilon delta "from" to durations)
  then have f0: "from \<noteq> 0" and rest: "\<forall>x \<in> set (butlast (to # durations)). x \<noteq> 0" by simp_all
  from "1.IH" [OF f0 rest] obtain levels where
    l: "RollupCounter_loop epsilon delta (to # durations) = Some levels"
    and n: "length levels = length (to # durations) - 1"
    and e: "\<forall>i < length levels.
              levels ! i = \<lparr>rlEpsilon = epsilon, rlDelta = delta, Interval = (to # durations) ! i,
                  NumIntervals = ((to # durations) ! (i + 1)) sdiv ((to # durations) ! i)
                     + (if ((to # durations) ! (i + 1)) smod ((to # durations) ! i) > 0 then 1 else 0),
                  buckets = []\<rparr>"
    by blast
  show ?case
    using f0 l n e by (auto simp: nth_Cons split: nat.splits)
qed simp_all

text \<open>
  C9.  As amended: \<open>RollingCounter\<close> returns a counter with the parameters as given and
  no buckets for every \<open>numIntervals\<close>; \<open>RollupCounter\<close>, given at least one duration
  with none but possibly the last equal to 0, returns a counter with one level for each
  adjacent pair of durations, in whatever order the durations are.
\<close>

theorem constructors_do_not_validate:
  "RollingCounter epsilon delta interval num
     = \<lparr>rlEpsilon = epsilon, rlDelta = delta, Interval = interval, NumIntervals = num, buckets = []\<rparr>
   \<and> (durations \<noteq> [] \<and> (\<forall>x \<in> set (butlast durations). x \<noteq> 0) \<longrightarrow>
        (\<exists>rc. RollupCounter epsilon delta durations = Some rc
           \<and> length (Levels rc) = length durations - 1
           \<and> (\<forall>i < length (Levels rc).
                 Levels rc ! i = \<lparr>rlEpsilon = epsilon, rlDelta = delta, Interval = durations ! i,
                    NumIntervals = (durations ! (i + 1)) sdiv (durations ! i)
                       + (if (durations ! (i + 1)) smod (durations ! i) > 0 then 1 else 0),
                    buckets = []\<rparr>)))"
proof -
  have "\<exists>rc. RollupCounter epsilon delta durations = Some rc
           \<and> length (Levels rc) = length durations - 1
           \<and> (\<forall>i < length (Levels rc).
                 Levels rc ! i = \<lparr>rlEpsilon = epsilon, rlDelta = delta, Interval = durations ! i,
                    NumIntervals = (durations ! (i + 1)) sdiv (durations ! i)
                       + (if (durations ! (i + 1)) smod (durations ! i) > 0 then 1 else 0),
                    buckets = []\<rparr>)"
    if ne: "durations \<noteq> []" and nz: "\<forall>x \<in> set (butlast durations). x \<noteq> 0"
  proof -
    from RollupCounter_loop_levels [OF nz, of epsilon delta] obtain levels where
      "RollupCounter_loop epsilon delta durations = Some levels"
      "length levels = length durations - 1"
      "\<forall>i < length levels.
              levels ! i = \<lparr>rlEpsilon = epsilon, rlDelta = delta, Interval = durations ! i,
                  NumIntervals = (durations ! (i + 1)) sdiv (durations ! i)
                     + (if (durations ! (i + 1)) smod (durations ! i) > 0 then 1 else 0),
                  buckets = []\<rparr>"
      by blast
    with ne show ?thesis by (simp add: RollupCounter_def)
  qed
  then show ?thesis by (simp add: RollingCounter_def)
qed

theorem constructors_do_not_validate_witness:
  "[3600000000000, 600000000000 :: int] \<noteq> []
   \<and> butlast [3600000000000, 600000000000 :: int] = [3600000000000]
   \<and> RollingCounter 0 0 60000000000 (- 1)
       = \<lparr>rlEpsilon = 0, rlDelta = 0, Interval = 60000000000, NumIntervals = - 1, buckets = []\<rparr>
   \<and> (\<exists>rc. RollupCounter 0 0 [3600000000000, 600000000000] = Some rc
         \<and> length (Levels rc) = 1
         \<and> Interval (Levels rc ! 0) = 3600000000000)"
  using constructors_do_not_validate [of 0 0 60000000000 "- 1" "[3600000000000, 600000000000]"]
  by auto

end
